theory Spec2Isabelle
  imports Main "HOL-Library.Word" "HOL-Library.List_Lexorder"
begin

section \<open>Bytes, machine integers and results\<close>

text \<open>
  Keys and values of the meta store are byte strings. A byte is an \<open>8 word\<close>, so the
  order on keys (\<open>HOL-Library.List_Lexorder\<close> over the unsigned order of bytes) is the
  order of RocksDB's bytewise comparator: byte by byte, a proper prefix first.
  \<open>TTabletId\<close> and versions are \<open>int64_t\<close>, log ids \<open>uint64_t\<close>, rowset and segment
  ids \<open>uint32_t\<close>, \<open>TSchemaHash\<close> is \<open>int32_t\<close>; a cast between the signed and the
  unsigned type of one width keeps the word.
\<close>

type_synonym byte = "8 word"
type_synonym bytes = "byte list"
type_synonym TTabletId = "64 word"
type_synonym TSchemaHash = "32 word"

definition ascii :: "string \<Rightarrow> bytes" where
  "ascii s = map of_char s"

definition INT64_MAX :: "64 word" where
  "INT64_MAX = 0x7FFFFFFFFFFFFFFF"

definition UINT64_MAX :: "64 word" where
  "UINT64_MAX = 0xFFFFFFFFFFFFFFFF"

definition UINT32_MAX :: "32 word" where
  "UINT32_MAX = 0xFFFFFFFF"

text \<open>
  A function that can end the process (\<open>CHECK\<close>, \<open>DCHECK\<close>, \<open>LOG(FATAL)\<close>) returns
  a \<open>res\<close>: \<open>Abort\<close> is the failed check, \<open>Ret x\<close> the ordinary return.
\<close>

datatype 'a res = Ret 'a | Abort

datatype Status = OK | NotFound | Corruption | InvalidArgument | InternalError | IOError
  | NotSupported

subsection \<open>Fixed-width big-endian fields\<close>

text \<open>
  Modelled from the spec: \<open>put_fixed64_le(&s, BigEndian::FromHost64(x))\<close> and its 32-bit
  twin (util/coding.h and gutil/endian.h are not among the sources) append \<open>be64(x)\<close>,
  \<open>be32(x)\<close>, the bytes of \<open>x\<close> from the most significant to the least significant;
  \<open>BigEndian::ToHost64(UNALIGNED_LOAD64(p))\<close> reads eight such bytes back.
\<close>

definition be64 :: "64 word \<Rightarrow> bytes" where
  "be64 w = [ucast (drop_bit 56 w), ucast (drop_bit 48 w), ucast (drop_bit 40 w),
             ucast (drop_bit 32 w), ucast (drop_bit 24 w), ucast (drop_bit 16 w),
             ucast (drop_bit 8 w), ucast w]"

definition be32 :: "32 word \<Rightarrow> bytes" where
  "be32 w = [ucast (drop_bit 24 w), ucast (drop_bit 16 w), ucast (drop_bit 8 w), ucast w]"

fun be_val :: "bytes \<Rightarrow> nat" where
  "be_val [] = 0"
| "be_val (b # bs) = unat b * 256 ^ length bs + be_val bs"

definition load_be64 :: "bytes \<Rightarrow> 64 word" where
  "load_be64 bs = word_of_nat (be_val bs)"

definition load_be32 :: "bytes \<Rightarrow> 32 word" where
  "load_be32 bs = word_of_nat (be_val bs)"

text \<open>\<open>be_bytes n w\<close> is the big-endian split in general; \<open>be64\<close> and \<open>be32\<close> are
  its instances at 8 and 4 bytes.\<close>

fun be_bytes :: "nat \<Rightarrow> 'a::len word \<Rightarrow> bytes" where
  "be_bytes 0 w = []"
| "be_bytes (Suc n) w = be_bytes n (drop_bit 8 w) @ [ucast w]"

subsection \<open>Decimal text\<close>

text \<open>
  Modelled from the spec: \<open>strings::Substitute\<close> prints an integer argument as
  \<open>decimal(x)\<close>, with a leading minus sign for a negative one (gutil/strings/substitute.h
  is not among the sources).
\<close>

fun dec_digits :: "nat \<Rightarrow> bytes" where
  "dec_digits n =
     (if n < 10 then [48 + of_nat n] else dec_digits (n div 10) @ [48 + of_nat (n mod 10)])"

declare dec_digits.simps [simp del]

definition dec_int :: "int \<Rightarrow> bytes" where
  "dec_int i = (if i < 0 then 45 # dec_digits (nat (- i)) else dec_digits (nat i))"

text \<open>
  Modelled from the spec: \<open>safe_strto64\<close> and \<open>safe_strto32\<close> (gutil/strings/numbers.h
  is not among the sources) are the integer parse whose failure is the error signal of
  the header codec: an optional minus sign, then at least one decimal digit, and a
  value that fits the target type; anything else fails.
\<close>

definition is_digit :: "byte \<Rightarrow> bool" where
  "is_digit b = (48 \<le> b \<and> b \<le> 57)"

fun parse_digits :: "nat \<Rightarrow> bytes \<Rightarrow> nat option" where
  "parse_digits acc [] = Some acc"
| "parse_digits acc (b # bs) =
     (if is_digit b then parse_digits (acc * 10 + unat (b - 48)) bs else None)"

definition parse_int :: "bytes \<Rightarrow> int option" where
  "parse_int s =
     (case s of
        [] \<Rightarrow> None
      | c # r \<Rightarrow>
          if c = 45 then (if r = [] then None else map_option (\<lambda>n. - int n) (parse_digits 0 r))
          else map_option int (parse_digits 0 s))"

definition safe_strto64 :: "bytes \<Rightarrow> 64 word option" where
  "safe_strto64 s =
     (case parse_int s of
        None \<Rightarrow> None
      | Some i \<Rightarrow> if - (2 ^ 63) \<le> i \<and> i < 2 ^ 63 then Some (word_of_int i) else None)"

definition safe_strto32 :: "bytes \<Rightarrow> 32 word option" where
  "safe_strto32 s =
     (case parse_int s of
        None \<Rightarrow> None
      | Some i \<Rightarrow> if - (2 ^ 31) \<le> i \<and> i < 2 ^ 31 then Some (word_of_int i) else None)"

section \<open>Key codecs\<close>

definition HEADER_PREFIX :: bytes where
  "HEADER_PREFIX = ascii ''tabletmeta_''"

definition TABLET_META_LOG_PREFIX :: bytes where
  "TABLET_META_LOG_PREFIX = ascii ''tlg_''"

definition TABLET_META_ROWSET_PREFIX :: bytes where
  "TABLET_META_ROWSET_PREFIX = ascii ''trs_''"

definition TABLET_META_PENDING_ROWSET_PREFIX :: bytes where
  "TABLET_META_PENDING_ROWSET_PREFIX = ascii ''tpr_''"

definition TABLET_DELVEC_PREFIX :: bytes where
  "TABLET_DELVEC_PREFIX = ascii ''dlv_''"

text \<open>\<open>strings::Substitute("$0$1_$2", HEADER_PREFIX, tablet_id, schema_hash)\<close>; 95 is the
  underscore.\<close>

definition encode_tablet_meta_key :: "TTabletId \<Rightarrow> TSchemaHash \<Rightarrow> bytes" where
  "encode_tablet_meta_key tablet_id schema_hash =
     HEADER_PREFIX @ dec_int (sint tablet_id) @ [95] @ dec_int (sint schema_hash)"

text \<open>
  \<open>sizeof(HEADER_PREFIX)\<close> counts the terminating NUL of the array, so it is one more
  than the length of the prefix. The \<open>DCHECK_EQ\<close> on the prefix is the \<open>Abort\<close> branch.
  \<open>memchr\<close> finds the first underscore of the rest; the tablet id is the text before it,
  the schema hash the text after it.
\<close>

definition decode_tablet_meta_key :: "bytes \<Rightarrow> (TTabletId \<times> TSchemaHash) option res" where
  "decode_tablet_meta_key key =
     (if length key \<le> length HEADER_PREFIX + 1 then Ret None
      else if take (length HEADER_PREFIX) key \<noteq> HEADER_PREFIX then Abort
      else
        let str = drop (length HEADER_PREFIX) key in
        if 95 \<notin> set str then Ret None
        else
          (case safe_strto64 (takeWhile (\<lambda>b. b \<noteq> 95) str) of
             None \<Rightarrow> Ret None
           | Some tablet_id \<Rightarrow>
               (case safe_strto32 (tl (dropWhile (\<lambda>b. b \<noteq> 95) str)) of
                  None \<Rightarrow> Ret None
                | Some schema_hash \<Rightarrow> Ret (Some (tablet_id, schema_hash)))))"

definition encode_meta_log_key :: "TTabletId \<Rightarrow> 64 word \<Rightarrow> bytes" where
  "encode_meta_log_key tablet_id logid = TABLET_META_LOG_PREFIX @ be64 tablet_id @ be64 logid"

definition decode_meta_log_key :: "bytes \<Rightarrow> (TTabletId \<times> 64 word) option" where
  "decode_meta_log_key key =
     (if length key \<noteq> length TABLET_META_LOG_PREFIX + 8 * 2 then None
      else Some (load_be64 (take 8 (drop (length TABLET_META_LOG_PREFIX) key)),
                 load_be64 (take 8 (drop (length TABLET_META_LOG_PREFIX + 8) key))))"

definition encode_meta_rowset_key :: "TTabletId \<Rightarrow> 32 word \<Rightarrow> bytes" where
  "encode_meta_rowset_key tablet_id rowsetid = TABLET_META_ROWSET_PREFIX @ be64 tablet_id @ be32 rowsetid"

definition decode_meta_rowset_key :: "bytes \<Rightarrow> (TTabletId \<times> 32 word) option" where
  "decode_meta_rowset_key key =
     (if length key \<noteq> length TABLET_META_ROWSET_PREFIX + 8 + 4 then None
      else Some (load_be64 (take 8 (drop (length TABLET_META_ROWSET_PREFIX) key)),
                 load_be32 (take 4 (drop (length TABLET_META_ROWSET_PREFIX + 8) key))))"

definition encode_meta_pending_rowset_key :: "TTabletId \<Rightarrow> 64 word \<Rightarrow> bytes" where
  "encode_meta_pending_rowset_key tablet_id version =
     TABLET_META_PENDING_ROWSET_PREFIX @ be64 tablet_id @ be64 version"

definition decode_meta_pending_rowset_key :: "bytes \<Rightarrow> (TTabletId \<times> 64 word) option" where
  "decode_meta_pending_rowset_key key =
     (if length key \<noteq> length TABLET_META_PENDING_ROWSET_PREFIX + 8 + 8 then None
      else Some (load_be64 (take 8 (drop (length TABLET_META_PENDING_ROWSET_PREFIX) key)),
                 load_be64 (take 8 (drop (length TABLET_META_PENDING_ROWSET_PREFIX + 8) key))))"

text \<open>
  The stored version field is \<open>numeric_limits<int64_t>::max() - version\<close>. The
  subtraction is written on the word: for a version from 0 to \<open>INT64_MAX\<close> nothing
  overflows, and for a negative version (undefined behaviour of the signed subtraction
  in C++) the model takes the two's complement result.
\<close>

definition encode_del_vector_key :: "TTabletId \<Rightarrow> 32 word \<Rightarrow> 64 word \<Rightarrow> bytes" where
  "encode_del_vector_key tablet_id segment_id version =
     TABLET_DELVEC_PREFIX @ be64 tablet_id @ be32 segment_id @ be64 (INT64_MAX - version)"

text \<open>\<open>decode_del_vector_key\<close> returns \<open>void\<close>: it has no failure result. Its
  \<open>DCHECK_EQ\<close> on the size of the key is the \<open>Abort\<close> branch.\<close>

definition decode_del_vector_key :: "bytes \<Rightarrow> (TTabletId \<times> 32 word \<times> 64 word) res" where
  "decode_del_vector_key enc_key =
     (if length enc_key \<noteq> 4 + 8 + 4 + 8 then Abort
      else Ret (load_be64 (take 8 (drop 4 enc_key)),
                load_be32 (take 4 (drop 12 enc_key)),
                INT64_MAX - load_be64 (take 8 (drop 16 enc_key))))"

definition decode_del_vector_key_version :: "bytes \<Rightarrow> 64 word res" where
  "decode_del_vector_key_version key =
     (if \<not> length key > 8 then Abort
      else Ret (INT64_MAX - load_be64 (drop (length key - 8) key)))"

section \<open>The ordered key-value store\<close>

text \<open>
  Modelled from the spec: the \<open>KVStore\<close> over RocksDB (storage/kv_store.h is not among
  the sources) is the store of section 4.2 of the specification: one ordered namespace
  of keys and values, \<open>get\<close>, \<open>put\<close> and \<open>delete\<close>, a range delete of \<open>[lower, upper)\<close>,
  a prefix scan and a range scan from \<open>lower\<close> to \<open>upper\<close> in ascending key order that
  stop when the visitor returns false, and an all-or-nothing commit of a batch. The
  content is the list of the pairs in ascending key order, without a repeated key
  (\<open>kv_sorted\<close>); \<open>kv_put\<close>, \<open>kv_delete\<close> and \<open>kv_delete_range\<close> keep it so. A scan
  yields, in the order of the content, the pairs whose key has the prefix
  (\<open>scan_prefix\<close>) or lies between the bounds (\<open>scan_range\<close>): what seeking to the
  lower bound and stepping to the first key outside yields on keys in order. A failure
  of the underlying store is two flags of the state: a failing read makes a scan
  return an error without visiting anything, a failing write makes a commit return an
  error and change nothing.

  The specification gives the interval \<open>[lower, upper)\<close> for the range delete and none
  for the range scan. Whether \<open>iterate_range\<close> visits a key equal to its upper bound is
  therefore left open: it is the field \<open>range_end_included\<close> of the store, and nothing
  is assumed about it.
\<close>

type_synonym kvs = "(bytes \<times> bytes) list"

record KVStore =
  kv_data :: kvs
  read_fails :: bool
  write_fails :: bool
  range_end_included :: bool

definition kv_sorted :: "kvs \<Rightarrow> bool" where
  "kv_sorted xs = sorted_wrt (<) (map fst xs)"

fun kv_put :: "bytes \<Rightarrow> bytes \<Rightarrow> kvs \<Rightarrow> kvs" where
  "kv_put k v [] = [(k, v)]"
| "kv_put k v ((k', v') # r) =
     (if k < k' then (k, v) # (k', v') # r
      else if k = k' then (k, v) # r
      else (k', v') # kv_put k v r)"

definition kv_delete :: "bytes \<Rightarrow> kvs \<Rightarrow> kvs" where
  "kv_delete k xs = filter (\<lambda>(k', v). k' \<noteq> k) xs"

definition kv_delete_range :: "bytes \<Rightarrow> bytes \<Rightarrow> kvs \<Rightarrow> kvs" where
  "kv_delete_range lower upper xs = filter (\<lambda>(k', v). \<not> (lower \<le> k' \<and> k' < upper)) xs"

definition has_prefix :: "bytes \<Rightarrow> bytes \<Rightarrow> bool" where
  "has_prefix p k = (take (length p) k = p)"

definition scan_prefix :: "bytes \<Rightarrow> kvs \<Rightarrow> kvs" where
  "scan_prefix p xs = filter (\<lambda>(k, v). has_prefix p k) xs"

definition scan_range :: "bool \<Rightarrow> bytes \<Rightarrow> bytes \<Rightarrow> kvs \<Rightarrow> kvs" where
  "scan_range end_included lower upper xs =
     filter (\<lambda>(k, v). lower \<le> k \<and> (k < upper \<or> (end_included \<and> k = upper))) xs"

text \<open>
  A \<open>rocksdb::WriteBatch\<close> is the list of the staged operations, in the order of
  staging; the default-constructed batch of the source has no size limit, so staging
  returns \<open>OK\<close>. The status is still returned, and every caller tests it as the source
  does.
\<close>

datatype batch_op = Put bytes bytes | Delete bytes | DeleteRange bytes bytes

type_synonym WriteBatch = "batch_op list"

definition batch_Put :: "WriteBatch \<Rightarrow> bytes \<Rightarrow> bytes \<Rightarrow> Status \<times> WriteBatch" where
  "batch_Put batch k v = (OK, batch @ [Put k v])"

definition batch_Delete :: "WriteBatch \<Rightarrow> bytes \<Rightarrow> Status \<times> WriteBatch" where
  "batch_Delete batch k = (OK, batch @ [Delete k])"

definition batch_DeleteRange :: "WriteBatch \<Rightarrow> bytes \<Rightarrow> bytes \<Rightarrow> Status \<times> WriteBatch" where
  "batch_DeleteRange batch lower upper = (OK, batch @ [DeleteRange lower upper])"

fun apply_op :: "kvs \<Rightarrow> batch_op \<Rightarrow> kvs" where
  "apply_op xs (Put k v) = kv_put k v xs"
| "apply_op xs (Delete k) = kv_delete k xs"
| "apply_op xs (DeleteRange lower upper) = kv_delete_range lower upper xs"

definition write_batch :: "KVStore \<Rightarrow> WriteBatch \<Rightarrow> Status \<times> KVStore" where
  "write_batch store batch =
     (if write_fails store then (IOError, store)
      else (OK, store\<lparr>kv_data := foldl apply_op (kv_data store) batch\<rparr>))"

definition kv_get :: "KVStore \<Rightarrow> bytes \<Rightarrow> bytes option" where
  "kv_get store k = map_of (kv_data store) k"

definition kv_store_put :: "KVStore \<Rightarrow> bytes \<Rightarrow> bytes \<Rightarrow> Status \<times> KVStore" where
  "kv_store_put store k v =
     (if write_fails store then (IOError, store)
      else (OK, store\<lparr>kv_data := kv_put k v (kv_data store)\<rparr>))"

text \<open>
  A visitor is the lambda of the source with the variables it captures by reference
  made a state \<open>'s\<close>: it returns whether the scan continues, and the new state.
  \<open>visit\<close> is the loop of \<open>iterate\<close> and \<open>iterate_range\<close> over the pairs to scan.
\<close>

type_synonym 's visitor = "bytes \<Rightarrow> bytes \<Rightarrow> 's \<Rightarrow> (bool \<times> 's) res"

fun visit :: "'s visitor \<Rightarrow> kvs \<Rightarrow> 's \<Rightarrow> 's res" where
  "visit f [] s = Ret s"
| "visit f ((k, v) # r) s =
     (case f k v s of
        Abort \<Rightarrow> Abort
      | Ret (continue, s') \<Rightarrow> if continue then visit f r s' else Ret s')"

text \<open>\<open>visited f xs s\<close> lists the keys the loop calls the visitor on.\<close>

fun visited :: "'s visitor \<Rightarrow> kvs \<Rightarrow> 's \<Rightarrow> bytes list" where
  "visited f [] s = []"
| "visited f ((k, v) # r) s =
     k # (case f k v s of
            Abort \<Rightarrow> []
          | Ret (continue, s') \<Rightarrow> if continue then visited f r s' else [])"

definition iterate :: "KVStore \<Rightarrow> bytes \<Rightarrow> 's visitor \<Rightarrow> 's \<Rightarrow> (Status \<times> 's) res" where
  "iterate store prefix f s =
     (if read_fails store then Ret (InternalError, s)
      else (case visit f (scan_prefix prefix (kv_data store)) s of
              Abort \<Rightarrow> Abort
            | Ret s' \<Rightarrow> Ret (OK, s')))"

definition iterate_range ::
  "KVStore \<Rightarrow> bytes \<Rightarrow> bytes \<Rightarrow> 's visitor \<Rightarrow> 's \<Rightarrow> (Status \<times> 's) res" where
  "iterate_range store lower upper f s =
     (if read_fails store then Ret (InternalError, s)
      else (case visit f (scan_range (range_end_included store) lower upper (kv_data store)) s of
              Abort \<Rightarrow> Abort
            | Ret s' \<Rightarrow> Ret (OK, s')))"

section \<open>Descriptors\<close>

text \<open>
  The protobuf messages, with the fields this file reads. Their wire format is opaque
  (section 6 of the specification): serialising and parsing are the functions of a
  \<open>pb_codec\<close>, a parameter of every operation that serialises or parses.
\<close>

datatype KeysType = DUP_KEYS | UNIQUE_KEYS | AGG_KEYS | PRIMARY_KEYS

record TabletUpdatesPB =
  next_log_id :: "64 word option"

record TabletMetaPB =
  schema_keys_type :: KeysType
  updates :: "TabletUpdatesPB option"

record EditVersionPB =
  major :: "64 word"
  minor :: "64 word"

record EditVersionMetaPB =
  edit_version :: EditVersionPB

record RowsetMetaPB =
  rowset_seg_id :: "32 word"

datatype TabletMetaOpType = OP_ROWSET_COMMIT | OP_APPLY

record TabletMetaOpPB =
  op_type :: TabletMetaOpType
  commit :: "EditVersionMetaPB option"
  apply_version :: "EditVersionPB option"

record TabletMetaLogPB =
  ops :: "TabletMetaOpPB list"

record DelVector =
  dv_version :: "64 word"
  dv_data :: bytes

record pb_codec =
  serialize_meta :: "TabletMetaPB \<Rightarrow> bytes"
  parse_meta :: "bytes \<Rightarrow> TabletMetaPB option"
  serialize_log :: "TabletMetaLogPB \<Rightarrow> bytes"
  parse_log :: "bytes \<Rightarrow> TabletMetaLogPB option"
  serialize_rowset :: "RowsetMetaPB \<Rightarrow> bytes"
  init_rowset :: "bytes \<Rightarrow> RowsetMetaPB option"
  delvec_save :: "DelVector \<Rightarrow> bytes"
  delvec_load :: "64 word \<Rightarrow> bytes \<Rightarrow> Status \<times> DelVector"

section \<open>Operations of \<open>TabletMetaManager\<close>\<close>

text \<open>
  \<open>DataDir* store\<close> stands for its meta store \<open>store->get_meta()\<close>, and the one column
  family \<open>META_COLUMN_FAMILY_INDEX\<close> is left implicit. An operation that writes returns
  its status and the store after it.
\<close>

subsection \<open>Saving a header\<close>

definition save ::
  "pb_codec \<Rightarrow> KVStore \<Rightarrow> TTabletId \<Rightarrow> TSchemaHash \<Rightarrow> TabletMetaPB \<Rightarrow> (Status \<times> KVStore) res" where
  "save pb store tablet_id schema_hash meta_pb =
     (if schema_keys_type meta_pb \<noteq> PRIMARY_KEYS \<and> updates meta_pb \<noteq> None
      then Ret (InvalidArgument, store)
      else
        let key = encode_tablet_meta_key tablet_id schema_hash;
            val = serialize_meta pb meta_pb
        in
        if parse_meta pb val = None then Abort
        else
          (case batch_Put [] key val of
             (st, batch) \<Rightarrow>
               if st \<noteq> OK then Ret (st, store)
               else
                 (case Option.bind (updates meta_pb) next_log_id of
                    Some next_id \<Rightarrow>
                      (case batch_DeleteRange batch (encode_meta_log_key tablet_id 0)
                              (encode_meta_log_key tablet_id next_id) of
                         (st, batch) \<Rightarrow>
                           if st \<noteq> OK then Ret (st, store)
                           else Ret (write_batch store batch))
                  | None \<Rightarrow> Ret (write_batch store batch))))"

subsection \<open>Clearing the ranges of a tablet\<close>

definition clear_rowset :: "WriteBatch \<Rightarrow> TTabletId \<Rightarrow> Status \<times> WriteBatch" where
  "clear_rowset batch tablet_id =
     batch_DeleteRange batch (encode_meta_rowset_key tablet_id 0)
       (encode_meta_rowset_key tablet_id UINT32_MAX)"

definition clear_log :: "WriteBatch \<Rightarrow> TTabletId \<Rightarrow> Status \<times> WriteBatch" where
  "clear_log batch tablet_id =
     batch_DeleteRange batch (encode_meta_log_key tablet_id 0)
       (encode_meta_log_key tablet_id UINT64_MAX)"

definition clear_del_vector :: "WriteBatch \<Rightarrow> TTabletId \<Rightarrow> Status \<times> WriteBatch" where
  "clear_del_vector batch tablet_id =
     batch_DeleteRange batch (encode_del_vector_key tablet_id 0 INT64_MAX)
       (encode_del_vector_key tablet_id UINT32_MAX INT64_MAX)"

definition clear_pending_rowset :: "WriteBatch \<Rightarrow> TTabletId \<Rightarrow> Status \<times> WriteBatch" where
  "clear_pending_rowset batch tablet_id =
     batch_DeleteRange batch (encode_meta_pending_rowset_key tablet_id 0)
       (encode_meta_pending_rowset_key tablet_id INT64_MAX)"

subsection \<open>Removing a tablet\<close>

text \<open>
  The visitor of \<open>remove(store, tablet_id)\<close> captures the batch and \<open>is_primary\<close>. A
  status of \<open>batch.Delete\<close> or of a \<open>clear_\<close> function that is not \<open>OK\<close> is only logged.
\<close>

definition remove_traverse_tabletmeta_func ::
  "pb_codec \<Rightarrow> TTabletId \<Rightarrow> (WriteBatch \<times> bool) visitor" where
  "remove_traverse_tabletmeta_func pb tablet_id key value s =
     (case s of
        (batch, is_primary) \<Rightarrow>
          (case decode_tablet_meta_key key of
             Abort \<Rightarrow> Abort
           | Ret None \<Rightarrow> Ret (False, s)
           | Ret (Some (tid, thash)) \<Rightarrow>
               if tid = tablet_id then
                 (case batch_Delete batch key of
                    (st, batch') \<Rightarrow>
                      (case parse_meta pb value of
                         None \<Rightarrow> Ret (True, (batch', is_primary))
                       | Some tablet_meta_pb \<Rightarrow>
                           Ret (True, (batch', schema_keys_type tablet_meta_pb = PRIMARY_KEYS))))
               else Ret (False, s)))"

text \<open>\<open>strings::Substitute("$0$1_", HEADER_PREFIX, tablet_id)\<close>\<close>

definition header_scan_prefix :: "TTabletId \<Rightarrow> bytes" where
  "header_scan_prefix tablet_id = HEADER_PREFIX @ dec_int (sint tablet_id) @ [95]"

definition remove :: "pb_codec \<Rightarrow> KVStore \<Rightarrow> TTabletId \<Rightarrow> (Status \<times> KVStore) res" where
  "remove pb store tablet_id =
     (case iterate store (header_scan_prefix tablet_id)
             (remove_traverse_tabletmeta_func pb tablet_id) ([], False) of
        Abort \<Rightarrow> Abort
      | Ret (st, (batch, is_primary)) \<Rightarrow>
          if st \<noteq> OK then Ret (st, store)
          else if is_primary then
            (let batch = snd (clear_log batch tablet_id);
                 batch = snd (clear_del_vector batch tablet_id);
                 batch = snd (clear_rowset batch tablet_id);
                 batch = snd (clear_pending_rowset batch tablet_id)
             in Ret (write_batch store batch))
          else Ret (write_batch store batch))"

text \<open>Whether a key lies in one of the four ranges that \<open>remove\<close> clears for a
  primary-key tablet.\<close>

definition in_cleared_ranges :: "TTabletId \<Rightarrow> bytes \<Rightarrow> bool" where
  "in_cleared_ranges t k =
     ((encode_meta_log_key t 0 \<le> k \<and> k < encode_meta_log_key t UINT64_MAX) \<or>
      (encode_del_vector_key t 0 INT64_MAX \<le> k \<and> k < encode_del_vector_key t UINT32_MAX INT64_MAX) \<or>
      (encode_meta_rowset_key t 0 \<le> k \<and> k < encode_meta_rowset_key t UINT32_MAX) \<or>
      (encode_meta_pending_rowset_key t 0 \<le> k \<and> k < encode_meta_pending_rowset_key t INT64_MAX))"

subsection \<open>Delete vectors\<close>

definition set_del_vector ::
  "pb_codec \<Rightarrow> KVStore \<Rightarrow> TTabletId \<Rightarrow> 32 word \<Rightarrow> DelVector \<Rightarrow> Status \<times> KVStore" where
  "set_del_vector pb meta tablet_id segment_id delvec =
     kv_store_put meta (encode_del_vector_key tablet_id segment_id (dv_version delvec))
       (delvec_save pb delvec)"

text \<open>
  The visitor of \<open>get_del_vector\<close> captures \<open>st\<close>, \<open>found\<close>, \<open>first\<close> and the two
  out-parameters \<open>delvec\<close> and \<open>latest_version\<close>. \<open>version >= cv\<close> compares \<open>int64_t\<close>.
\<close>

definition traverse_versions ::
  "pb_codec \<Rightarrow> 64 word \<Rightarrow> (Status \<times> bool \<times> bool \<times> DelVector \<times> 64 word) visitor" where
  "traverse_versions pb version key value s =
     (case s of
        (st, found, first, delvec, latest_version) \<Rightarrow>
          (case decode_del_vector_key_version key of
             Abort \<Rightarrow> Abort
           | Ret cv \<Rightarrow>
               let latest_version' = (if first then cv else latest_version) in
               if sint version \<ge> sint cv then
                 (case delvec_load pb cv value of
                    (st', delvec') \<Rightarrow> Ret (False, (st', True, False, delvec', latest_version')))
               else Ret (True, (st, found, False, delvec, latest_version'))))"

text \<open>
  The result is the status with the final values of the out-parameters \<open>delvec\<close> and
  \<open>latest_version\<close>. The status of \<open>iterate_range\<close> is assigned to \<open>st\<close> after the scan,
  over what the visitor stored there.
\<close>

definition get_del_vector ::
  "pb_codec \<Rightarrow> KVStore \<Rightarrow> TTabletId \<Rightarrow> 32 word \<Rightarrow> 64 word \<Rightarrow> DelVector \<Rightarrow> 64 word \<Rightarrow>
     (Status \<times> DelVector \<times> 64 word) res" where
  "get_del_vector pb meta tablet_id segment_id version delvec latest_version =
     (let lower = encode_del_vector_key tablet_id segment_id INT64_MAX;
          upper = encode_del_vector_key tablet_id segment_id 0
      in
      case iterate_range meta lower upper (traverse_versions pb version)
             (OK, False, True, delvec, latest_version) of
        Abort \<Rightarrow> Abort
      | Ret (st, (st_load, found, first, delvec', latest_version')) \<Rightarrow>
          if st \<noteq> OK then Ret (st, delvec', latest_version')
          else if \<not> found then Ret (NotFound, delvec', latest_version')
          else Ret (st, delvec', latest_version'))"

definition delete_del_vector_range ::
  "KVStore \<Rightarrow> TTabletId \<Rightarrow> 32 word \<Rightarrow> 64 word \<Rightarrow> 64 word \<Rightarrow> Status \<times> KVStore" where
  "delete_del_vector_range meta tablet_id segment_id start_version end_version =
     (if start_version = end_version then (OK, meta)
      else if sint start_version > sint end_version then (InvalidArgument, meta)
      else
        let begin_key = encode_del_vector_key tablet_id segment_id (end_version - 1);
            end_key = encode_del_vector_key tablet_id segment_id (start_version - 1)
        in
        (case batch_DeleteRange [] begin_key end_key of
           (st, batch) \<Rightarrow> if st \<noteq> OK then (st, meta) else write_batch meta batch))"

subsection \<open>Committing rowsets\<close>

definition delete_pending_rowset :: "WriteBatch \<Rightarrow> TTabletId \<Rightarrow> 64 word \<Rightarrow> Status \<times> WriteBatch" where
  "delete_pending_rowset batch tablet_id version =
     batch_Delete batch (encode_meta_pending_rowset_key tablet_id version)"

text \<open>\<open>logid\<close> is an \<open>int64_t\<close> here and is converted to the \<open>uint64_t\<close> of
  \<open>encode_meta_log_key\<close>: the same word.\<close>

definition rowset_commit ::
  "pb_codec \<Rightarrow> KVStore \<Rightarrow> TTabletId \<Rightarrow> 64 word \<Rightarrow> EditVersionMetaPB \<Rightarrow> RowsetMetaPB \<Rightarrow> bytes \<Rightarrow>
     Status \<times> KVStore" where
  "rowset_commit pb store tablet_id logid edit rowset rowset_meta_key =
     (let logkey = encode_meta_log_key tablet_id logid;
          log = \<lparr>ops = [\<lparr>op_type = OP_ROWSET_COMMIT, commit = Some edit, apply_version = None\<rparr>]\<rparr>;
          logvalue = serialize_log pb log
      in
      case batch_Put [] logkey logvalue of
        (st, batch) \<Rightarrow>
          if st \<noteq> OK then (st, store)
          else
            let rowsetkey = encode_meta_rowset_key tablet_id (rowset_seg_id rowset);
                rowsetvalue = serialize_rowset pb rowset
            in
            (case batch_Put batch rowsetkey rowsetvalue of
               (st, batch) \<Rightarrow>
                 if st \<noteq> OK then (st, store)
                 else
                   (case (if rowset_meta_key \<noteq> [] then batch_Delete batch rowset_meta_key
                          else (OK, batch)) of
                      (st, batch) \<Rightarrow>
                        if st \<noteq> OK then (st, store)
                        else
                          (case delete_pending_rowset batch tablet_id
                                  (major (edit_version edit)) of
                             (st, batch) \<Rightarrow>
                               if st \<noteq> OK then (st, store) else write_batch store batch))))"

definition pending_rowset_commit ::
  "pb_codec \<Rightarrow> KVStore \<Rightarrow> TTabletId \<Rightarrow> 64 word \<Rightarrow> RowsetMetaPB \<Rightarrow> bytes \<Rightarrow> Status \<times> KVStore" where
  "pending_rowset_commit pb store tablet_id version rowset rowset_meta_key =
     (case (if rowset_meta_key \<noteq> [] then batch_Delete [] rowset_meta_key else (OK, [])) of
        (st, batch) \<Rightarrow>
          if st \<noteq> OK then (st, store)
          else
            (case batch_Put batch (encode_meta_pending_rowset_key tablet_id version)
                    (serialize_rowset pb rowset) of
               (st, batch) \<Rightarrow> if st \<noteq> OK then (st, store) else write_batch store batch))"

subsection \<open>Read-only traversals\<close>

text \<open>
  The caller's callback \<open>func\<close> is a function on a state of the caller: it returns
  whether to continue and the new state.
\<close>

definition rowset_visitor ::
  "pb_codec \<Rightarrow> (RowsetMetaPB \<Rightarrow> 's \<Rightarrow> bool \<times> 's) \<Rightarrow> 's visitor" where
  "rowset_visitor pb func key value s =
     (case init_rowset pb value of
        None \<Rightarrow> Abort
      | Some rowset_meta \<Rightarrow> Ret (func rowset_meta s))"

definition rowset_iterate ::
  "pb_codec \<Rightarrow> KVStore \<Rightarrow> TTabletId \<Rightarrow> (RowsetMetaPB \<Rightarrow> 's \<Rightarrow> bool \<times> 's) \<Rightarrow> 's \<Rightarrow>
     (Status \<times> 's) res" where
  "rowset_iterate pb store tablet_id func s =
     iterate store (TABLET_META_ROWSET_PREFIX @ be64 tablet_id) (rowset_visitor pb func) s"

definition pending_rowset_visitor :: "(64 word \<Rightarrow> bytes \<Rightarrow> 's \<Rightarrow> bool \<times> 's) \<Rightarrow> 's visitor" where
  "pending_rowset_visitor func key value s =
     (case decode_meta_pending_rowset_key key of
        None \<Rightarrow> Ret (False, s)
      | Some (tid, version) \<Rightarrow> Ret (func version value s))"

definition pending_rowset_iterate ::
  "KVStore \<Rightarrow> TTabletId \<Rightarrow> (64 word \<Rightarrow> bytes \<Rightarrow> 's \<Rightarrow> bool \<times> 's) \<Rightarrow> 's \<Rightarrow> (Status \<times> 's) res" where
  "pending_rowset_iterate store tablet_id func s =
     iterate store (TABLET_META_PENDING_ROWSET_PREFIX @ be64 tablet_id)
       (pending_rowset_visitor func) s"

definition traverse_header_func ::
  "(TTabletId \<Rightarrow> TSchemaHash \<Rightarrow> bytes \<Rightarrow> 's \<Rightarrow> bool \<times> 's) \<Rightarrow> 's visitor" where
  "traverse_header_func func key value s =
     (case decode_tablet_meta_key key of
        Abort \<Rightarrow> Abort
      | Ret None \<Rightarrow> Ret (True, s)
      | Ret (Some (tablet_id, schema_hash)) \<Rightarrow> Ret (func tablet_id schema_hash value s))"

definition traverse_headers ::
  "KVStore \<Rightarrow> (TTabletId \<Rightarrow> TSchemaHash \<Rightarrow> bytes \<Rightarrow> 's \<Rightarrow> bool \<times> 's) \<Rightarrow> 's \<Rightarrow> (Status \<times> 's) res" where
  "traverse_headers meta func s = iterate meta HEADER_PREFIX (traverse_header_func func) s"

text \<open>The visitor of \<open>traverse_meta_logs\<close> captures \<open>ret\<close>; its \<open>DCHECK_EQ\<close> on the
  tablet id is the \<open>Abort\<close> branch.\<close>

definition meta_log_visitor ::
  "pb_codec \<Rightarrow> TTabletId \<Rightarrow> (64 word \<Rightarrow> TabletMetaLogPB \<Rightarrow> 's \<Rightarrow> bool \<times> 's) \<Rightarrow>
     (Status \<times> 's) visitor" where
  "meta_log_visitor pb tablet_id func key value rs =
     (case rs of
        (ret, s) \<Rightarrow>
          (case decode_meta_log_key key of
             None \<Rightarrow> Ret (False, (Corruption, s))
           | Some (tid, logid) \<Rightarrow>
               if tablet_id \<noteq> tid then Abort
               else
                 (case parse_log pb value of
                    None \<Rightarrow> Ret (False, (Corruption, s))
                  | Some log \<Rightarrow>
                      (case func logid log s of (continue, s') \<Rightarrow> Ret (continue, (ret, s'))))))"

definition traverse_meta_logs ::
  "pb_codec \<Rightarrow> KVStore \<Rightarrow> TTabletId \<Rightarrow> (64 word \<Rightarrow> TabletMetaLogPB \<Rightarrow> 's \<Rightarrow> bool \<times> 's) \<Rightarrow> 's \<Rightarrow>
     (Status \<times> 's) res" where
  "traverse_meta_logs pb store tablet_id func s =
     (let lower_bound = encode_meta_log_key tablet_id 0;
          upper_bound = encode_meta_log_key tablet_id UINT64_MAX
      in
      case iterate_range store lower_bound upper_bound (meta_log_visitor pb tablet_id func)
             (OK, s) of
        Abort \<Rightarrow> Abort
      | Ret (st, (ret, s')) \<Rightarrow> if st \<noteq> OK then Ret (st, s') else Ret (ret, s'))"

section \<open>Example data\<close>

text \<open>
  A concrete codec and concrete stores, on which the operations are evaluated. The
  codec writes a header as one byte that tells whether its keys type is
  \<open>PRIMARY_KEYS\<close>, a rowset as its big-endian \<open>rowset_seg_id\<close>, and a delete vector as
  its data; \<open>store_of xs\<close> is the healthy store with the content \<open>xs\<close>, whose range
  scan excludes its upper bound, and \<open>store_of xs\<lparr>range_end_included := True\<rparr>\<close> the one
  whose range scan includes it.
\<close>

definition example_codec :: pb_codec where
  "example_codec =
     \<lparr>serialize_meta = (\<lambda>m. [if schema_keys_type m = PRIMARY_KEYS then 1 else 0]),
      parse_meta = (\<lambda>bs. case bs of
                       [b] \<Rightarrow> Some \<lparr>schema_keys_type = (if b = 1 then PRIMARY_KEYS else DUP_KEYS),
                                     updates = None\<rparr>
                     | _ \<Rightarrow> None),
      serialize_log = (\<lambda>l. [of_nat (length (ops l))]),
      parse_log = (\<lambda>bs. if bs = [] then None else Some \<lparr>ops = []\<rparr>),
      serialize_rowset = (\<lambda>r. be32 (rowset_seg_id r)),
      init_rowset = (\<lambda>bs. if length bs = 4 then Some \<lparr>rowset_seg_id = load_be32 bs\<rparr> else None),
      delvec_save = dv_data,
      delvec_load = (\<lambda>v bs. (OK, \<lparr>dv_version = v, dv_data = bs\<rparr>))\<rparr>"

definition store_of :: "kvs \<Rightarrow> KVStore" where
  "store_of xs =
     \<lparr>kv_data = xs, read_fails = False, write_fails = False, range_end_included = False\<rparr>"


definition delvec_store :: KVStore where
  "delvec_store =
     store_of [(encode_del_vector_key 1 2 10, [10]), (encode_del_vector_key 1 2 7, [7]),
               (encode_del_vector_key 1 2 3, [3])]"

definition corrupt_key_store :: KVStore where
  "corrupt_key_store =
     store_of [(encode_meta_log_key 1 0, [9]), (encode_meta_log_key 1 0 @ [0], [9]),
               (encode_meta_log_key 1 1, [9]),
               (encode_meta_pending_rowset_key 1 3, [9]),
               (encode_meta_pending_rowset_key 1 3 @ [0], [9]),
               (encode_meta_pending_rowset_key 1 5, [9])]"

definition corrupt_header_store :: KVStore where
  "corrupt_header_store =
     store_of [(ascii ''tabletmeta_0'', [1]), (encode_tablet_meta_key 1 2, [1])]"

definition unparsable_header_store :: KVStore where
  "unparsable_header_store =
     store_of [(encode_del_vector_key 1 0 5, [5]), (encode_tablet_meta_key 1 2, [1]),
               (encode_tablet_meta_key 1 3, [0]), (encode_tablet_meta_key 1 4, []),
               (ascii ''tabletmeta_1_x'', [1]),
               (encode_meta_log_key 1 0, [9]), (encode_meta_pending_rowset_key 1 6, [0, 0, 0, 1]),
               (encode_meta_rowset_key 1 0, [0, 0, 0, 0])]"

definition primary_then_unparsable_store :: KVStore where
  "primary_then_unparsable_store =
     store_of [(encode_tablet_meta_key 1 2, [1]), (encode_tablet_meta_key 1 3, []),
               (encode_meta_log_key 1 0, [9])]"

definition undecodable_before_header_store :: KVStore where
  "undecodable_before_header_store =
     store_of [(ascii ''tabletmeta_1_'', [0]), (encode_tablet_meta_key 1 2, [])]"


definition primary_tablet_store :: KVStore where
  "primary_tablet_store =
     store_of [(encode_del_vector_key 1 0 5, [5]),
               (encode_del_vector_key 1 UINT32_MAX 5, [5]),
               (encode_tablet_meta_key 1 2, [1]),
               (encode_meta_log_key 1 0, [9]),
               (encode_meta_log_key 1 UINT64_MAX, [9]),
               (encode_meta_pending_rowset_key 1 6, [0, 0, 0, 1]),
               (encode_meta_pending_rowset_key 1 INT64_MAX, [0, 0, 0, 2]),
               (encode_meta_rowset_key 1 0, [0, 0, 0, 0]),
               (encode_meta_rowset_key 1 UINT32_MAX, [255, 255, 255, 255])]"

definition pending_store :: KVStore where
  "pending_store =
     store_of [(encode_meta_pending_rowset_key 1 5, [0, 0, 0, 3]),
               (encode_meta_rowset_key 1 2, [0, 0, 0, 2])]"

definition committed_store :: KVStore where
  "committed_store =
     store_of [(encode_meta_log_key 1 0, [1]), (encode_meta_rowset_key 1 2, [0, 0, 0, 2]),
               (encode_meta_rowset_key 1 3, [0, 0, 0, 3])]"

section \<open>Big-endian fields: length, value, order\<close>

lemma be64_be_bytes: "be64 w = be_bytes 8 w"
  by (simp add: be64_def eval_nat_numeral drop_bit_drop_bit del: drop_bit_Suc)

lemma be32_be_bytes: "be32 w = be_bytes 4 w"
  by (simp add: be32_def eval_nat_numeral drop_bit_drop_bit del: drop_bit_Suc)

lemma length_be64 [simp]: "length (be64 w) = 8"
  by (simp add: be64_def)

lemma length_be32 [simp]: "length (be32 w) = 4"
  by (simp add: be32_def)

lemma be_val_append: "be_val (xs @ ys) = be_val xs * 256 ^ length ys + be_val ys"
  by (induction xs) (simp_all add: algebra_simps power_add)

lemma be_val_lt: "be_val xs < 256 ^ length xs"
proof (induction xs)
  case Nil show ?case by simp
next
  case (Cons b bs)
  let ?p = "(256::nat) ^ length bs"
  have "unat b < 256" using unsigned_less [of b] by simp
  then have "unat b + 1 \<le> 256" by simp
  then have le: "(unat b + 1) * ?p \<le> 256 * ?p"
    by (rule mult_le_mono1)
  have "be_val (b # bs) < unat b * ?p + ?p"
    using Cons by simp
  also have "\<dots> = (unat b + 1) * ?p" by simp
  finally have "be_val (b # bs) < (unat b + 1) * ?p" .
  then have "be_val (b # bs) < 256 * ?p" using le by (rule less_le_trans)
  then show ?case by simp
qed

lemma unat_ucast_byte: "unat (ucast (w :: 'a::len word) :: byte) = unat w mod 256"
  by (simp add: unsigned_ucast_eq take_bit_eq_mod)

lemma be_val_be_bytes: "be_val (be_bytes n (w :: 'a::len word)) = unat w mod 256 ^ n"
proof (induction n arbitrary: w)
  case 0 show ?case by simp
next
  case (Suc n)
  have d: "unat (drop_bit 8 w) = unat w div 256"
    by (simp add: unat_drop_bit_eq) (simp add: drop_bit_eq_div)
  have "be_val (be_bytes (Suc n) w) = (unat w div 256 mod 256 ^ n) * 256 + unat w mod 256"
    by (simp add: be_val_append Suc d unat_ucast_byte)
  also have "\<dots> = unat w mod 256 ^ Suc n"
    by (simp add: mod_mult2_eq algebra_simps)
  finally show ?case .
qed

lemma be_val_be64 [simp]: "be_val (be64 w) = unat w"
proof -
  have "unat w < 2 ^ 64" using unsigned_less [of w] by simp
  then show ?thesis by (simp add: be64_be_bytes be_val_be_bytes)
qed

lemma be_val_be32 [simp]: "be_val (be32 w) = unat w"
proof -
  have "unat w < 2 ^ 32" using unsigned_less [of w] by simp
  then show ?thesis by (simp add: be32_be_bytes be_val_be_bytes)
qed

lemma load_be64_be64 [simp]: "load_be64 (be64 w) = w"
  by (simp add: load_be64_def)

lemma load_be32_be32 [simp]: "load_be32 (be32 w) = w"
  by (simp add: load_be32_def)

lemma lex_be_val:
  "length xs = length ys \<Longrightarrow> (xs < ys) = (be_val xs < be_val ys)"
proof (induction xs ys rule: list_induct2)
  case Nil show ?case by simp
next
  case (Cons a xs b ys)
  let ?p = "(256::nat) ^ length ys"
  have bx: "be_val xs < ?p" using be_val_lt [of xs] Cons.hyps by simp
  have by': "be_val ys < ?p" by (rule be_val_lt)
  have lt: "unat a * ?p + be_val xs < unat b * ?p + be_val ys" if "a < b"
  proof -
    from that have "unat a + 1 \<le> unat b" by (simp add: word_less_nat_alt)
    then have "(unat a + 1) * ?p \<le> unat b * ?p" by (rule mult_le_mono1)
    with bx show ?thesis by (simp add: algebra_simps)
  qed
  have gt: "unat b * ?p + be_val ys < unat a * ?p + be_val xs" if "b < a"
  proof -
    from that have "unat b + 1 \<le> unat a" by (simp add: word_less_nat_alt)
    then have "(unat b + 1) * ?p \<le> unat a * ?p" by (rule mult_le_mono1)
    with by' show ?thesis by (simp add: algebra_simps)
  qed
  consider "a < b" | "a = b" | "b < a" by (rule linorder_cases)
  then show ?case
  proof cases
    case 1 with lt Cons.hyps show ?thesis by simp
  next
    case 2 with Cons show ?thesis by simp
  next
    case 3
    then have "\<not> a < b" "a \<noteq> b" by auto
    with gt [OF 3] Cons.hyps show ?thesis by simp
  qed
qed

lemma be_val_inj: "length xs = length ys \<Longrightarrow> be_val xs = be_val ys \<Longrightarrow> xs = ys"
  using lex_be_val [of xs ys] lex_be_val [of ys xs] by (metis less_irrefl linorder_less_linear)

lemma be64_less [simp]: "(be64 a < be64 b) = (a < b)"
  by (simp add: lex_be_val word_less_nat_alt)

lemma be64_eq [simp]: "(be64 a = be64 b) = (a = b)"
  by (metis load_be64_be64)

lemma be64_le [simp]: "(be64 a \<le> be64 b) = (a \<le> b)"
  by (auto simp: le_less)

lemma be32_less [simp]: "(be32 a < be32 b) = (a < b)"
  by (simp add: lex_be_val word_less_nat_alt)

lemma be32_eq [simp]: "(be32 a = be32 b) = (a = b)"
  by (metis load_be32_be32)

lemma be32_le [simp]: "(be32 a \<le> be32 b) = (a \<le> b)"
  by (auto simp: le_less)

lemma be64_load_be64: "length bs = 8 \<Longrightarrow> be64 (load_be64 bs) = bs"
proof -
  assume l: "length bs = 8"
  have "be_val bs < 2 ^ 64" using be_val_lt [of bs] l by simp
  then have "be_val (be64 (load_be64 bs)) = be_val bs"
    by (simp add: load_be64_def unat_of_nat take_bit_nat_eq_self)
  then show ?thesis using l by (intro be_val_inj) simp_all
qed

lemma append_less_same_length:
  fixes p :: "'a::linorder list"
  shows "length p = length q \<Longrightarrow> (p @ x < q @ y) = (p < q \<or> p = q \<and> x < y)"
  by (induction p q rule: list_induct2) auto

lemma append_le_same_length:
  fixes p :: "'a::linorder list"
  assumes "length p = length q"
  shows "(p @ x \<le> q @ y) = (p < q \<or> p = q \<and> x \<le> y)"
proof -
  have "(p @ x \<le> q @ y) = (p @ x < q @ y \<or> p @ x = q @ y)"
    by (rule le_less)
  also have "\<dots> = ((p < q \<or> p = q \<and> x < y) \<or> (p = q \<and> x = y))"
    using assms by (simp add: append_less_same_length)
  also have "\<dots> = (p < q \<or> p = q \<and> x \<le> y)"
    by (auto simp: le_less)
  finally show ?thesis .
qed

subsection \<open>The stored version of a delete-vector key\<close>

lemma sint64_cases:
  fixes v :: "64 word"
  shows "sint v = (if uint v < 2 ^ 63 then uint v else uint v - 2 ^ 64)"
proof -
  define u where "u = uint v"
  have b: "0 \<le> u" "u < 2 ^ 64"
    using uint_bounded [of v] by (simp_all add: u_def)
  have s: "sint v = (u + 2 ^ 63) mod 2 ^ 64 - 2 ^ 63"
    by (simp add: sint_uint signed_take_bit_eq_take_bit_shift take_bit_eq_mod u_def)
  show ?thesis
  proof (cases "u < 2 ^ 63")
    case True
    with b have "(u + 2 ^ 63) mod 2 ^ 64 = u + 2 ^ 63"
      by (intro mod_pos_pos_trivial) simp_all
    with True s show ?thesis by (simp add: u_def)
  next
    case False
    with b have "(u + 2 ^ 63 - 2 ^ 64) mod 2 ^ 64 = u + 2 ^ 63 - 2 ^ 64"
      by (intro mod_pos_pos_trivial) simp_all
    then have "(u + 2 ^ 63) mod 2 ^ 64 = u + 2 ^ 63 - 2 ^ 64"
      by (simp only: minus_mod_self2)
    with False s show ?thesis by (simp add: u_def)
  qed
qed

lemma uint_stored_version:
  fixes v :: "64 word"
  shows "uint (INT64_MAX - v) = 2 ^ 63 - 1 - sint v"
proof -
  define u where "u = uint v"
  have b: "0 \<le> u" "u < 2 ^ 64"
    using uint_bounded [of v] by (simp_all add: u_def)
  have e: "uint (INT64_MAX - v) = (2 ^ 63 - 1 - u) mod 2 ^ 64"
    by (simp add: uint_word_ariths INT64_MAX_def u_def)
  show ?thesis
  proof (cases "u < 2 ^ 63")
    case True
    with b have "(2 ^ 63 - 1 - u) mod 2 ^ 64 = 2 ^ 63 - 1 - u"
      by (intro mod_pos_pos_trivial) simp_all
    with True e show ?thesis by (simp add: sint64_cases u_def)
  next
    case False
    with b have "(2 ^ 63 - 1 - u + 2 ^ 64) mod 2 ^ 64 = 2 ^ 63 - 1 - u + 2 ^ 64"
      by (intro mod_pos_pos_trivial) simp_all
    then have "(2 ^ 63 - 1 - u) mod 2 ^ 64 = 2 ^ 63 - 1 - u + 2 ^ 64"
      by (simp only: mod_add_self2)
    with False e show ?thesis by (simp add: sint64_cases u_def)
  qed
qed

lemma stored_version_less:
  fixes v1 v2 :: "64 word"
  shows "(INT64_MAX - v2 < INT64_MAX - v1) = (sint v1 < sint v2)"
  by (simp add: word_less_def uint_stored_version)

lemma stored_version_le:
  fixes v1 v2 :: "64 word"
  shows "(INT64_MAX - v2 \<le> INT64_MAX - v1) = (sint v1 \<le> sint v2)"
  by (simp add: word_le_def uint_stored_version)

section \<open>Decimal text\<close>

lemma unat_digit: "n < 10 \<Longrightarrow> unat (48 + of_nat n :: byte) = 48 + n"
  by (simp add: unat_word_ariths unat_of_nat take_bit_nat_eq_self)

lemma is_digit_digit: "n < 10 \<Longrightarrow> is_digit (48 + of_nat n)"
proof -
  assume n: "n < 10"
  have "unat (48 :: byte) \<le> unat (48 + of_nat n :: byte)"
    and "unat (48 + of_nat n :: byte) \<le> unat (57 :: byte)"
    using n by (simp_all add: unat_digit)
  then show ?thesis unfolding is_digit_def word_le_nat_alt by simp
qed

lemma digit_value: "n < 10 \<Longrightarrow> unat (of_nat n :: byte) = n"
proof -
  assume "n < 10"
  then have "n < 256" by simp
  then show ?thesis by (simp add: unat_of_nat)
qed

lemma dec_digits_all_digits: "b \<in> set (dec_digits n) \<Longrightarrow> is_digit b"
proof (induction n rule: dec_digits.induct)
  case (1 n)
  show ?case
  proof (cases "n < 10")
    case True
    with 1(2) show ?thesis by (simp add: dec_digits.simps [of n] is_digit_digit)
  next
    case False
    with 1 show ?thesis
      by (auto simp: dec_digits.simps [of n] is_digit_digit)
  qed
qed

lemma dec_digits_not_Nil [simp]: "dec_digits n \<noteq> []"
  by (simp add: dec_digits.simps [of n])

lemma parse_digits_snoc:
  "is_digit d \<Longrightarrow>
   parse_digits acc (xs @ [d]) = map_option (\<lambda>a. a * 10 + unat (d - 48)) (parse_digits acc xs)"
  by (induction xs arbitrary: acc) simp_all

lemma parse_digits_dec_digits: "parse_digits 0 (dec_digits n) = Some n"
proof (induction n rule: dec_digits.induct)
  case (1 n)
  show ?case
  proof (cases "n < 10")
    case True
    then show ?thesis by (simp add: dec_digits.simps [of n] is_digit_digit digit_value)
  next
    case False
    then have "parse_digits 0 (dec_digits n) =
        map_option (\<lambda>a. a * 10 + unat (of_nat (n mod 10) :: byte))
          (parse_digits 0 (dec_digits (n div 10)))"
      by (simp add: dec_digits.simps [of n] parse_digits_snoc is_digit_digit)
    also have "\<dots> = Some (n div 10 * 10 + n mod 10)"
      using False 1 by (simp add: digit_value)
    finally show ?thesis by simp
  qed
qed

lemma is_digit_not_minus: "is_digit b \<Longrightarrow> b \<noteq> 45"
  by (auto simp: is_digit_def)

lemma is_digit_not_underscore: "is_digit b \<Longrightarrow> b \<noteq> 95"
  by (auto simp: is_digit_def)

lemma parse_int_dec_int: "parse_int (dec_int i) = Some i"
proof (cases "i < 0")
  case True
  then show ?thesis
    by (simp add: parse_int_def dec_int_def parse_digits_dec_digits)
next
  case False
  obtain c r where cr: "dec_digits (nat i) = c # r"
    by (cases "dec_digits (nat i)") simp_all
  then have "c \<in> set (dec_digits (nat i))" by simp
  then have "c \<noteq> 45" using dec_digits_all_digits is_digit_not_minus by blast
  moreover have "parse_digits 0 (c # r) = Some (nat i)"
    using parse_digits_dec_digits [of "nat i"] cr by simp
  ultimately show ?thesis using False cr
    by (simp add: parse_int_def dec_int_def del: parse_digits.simps)
qed

lemma dec_int_no_underscore: "95 \<notin> set (dec_int i)"
  using dec_digits_all_digits is_digit_not_underscore by (auto simp: dec_int_def)

lemma dec_int_not_Nil [simp]: "dec_int i \<noteq> []"
  by (simp add: dec_int_def)

lemma length_dec_int: "1 \<le> length (dec_int i)"
  using dec_int_not_Nil [of i] by (cases "dec_int i") simp_all

lemma safe_strto64_dec_int [simp]: "safe_strto64 (dec_int (sint (w :: 64 word))) = Some w"
proof -
  have "- (2 ^ 63) \<le> sint w" "sint w < 2 ^ 63"
    using sint_ge [of w] sint_lt [of w] by simp_all
  then show ?thesis by (simp add: safe_strto64_def parse_int_dec_int)
qed

lemma safe_strto32_dec_int [simp]: "safe_strto32 (dec_int (sint (w :: 32 word))) = Some w"
proof -
  have "- (2 ^ 31) \<le> sint w" "sint w < 2 ^ 31"
    using sint_ge [of w] sint_lt [of w] by simp_all
  then show ?thesis by (simp add: safe_strto32_def parse_int_dec_int)
qed

section \<open>Codecs\<close>

lemma length_HEADER_PREFIX [simp]: "length HEADER_PREFIX = 11"
  by (simp add: HEADER_PREFIX_def ascii_def)

lemma length_LOG_PREFIX [simp]: "length TABLET_META_LOG_PREFIX = 4"
  by (simp add: TABLET_META_LOG_PREFIX_def ascii_def)

lemma length_ROWSET_PREFIX [simp]: "length TABLET_META_ROWSET_PREFIX = 4"
  by (simp add: TABLET_META_ROWSET_PREFIX_def ascii_def)

lemma length_PENDING_PREFIX [simp]: "length TABLET_META_PENDING_ROWSET_PREFIX = 4"
  by (simp add: TABLET_META_PENDING_ROWSET_PREFIX_def ascii_def)

lemma length_DELVEC_PREFIX [simp]: "length TABLET_DELVEC_PREFIX = 4"
  by (simp add: TABLET_DELVEC_PREFIX_def ascii_def)

lemma split_at_underscore:
  "95 \<notin> set a \<Longrightarrow> takeWhile (\<lambda>b. b \<noteq> 95) (a @ 95 # c) = a"
  "95 \<notin> set a \<Longrightarrow> dropWhile (\<lambda>b. b \<noteq> (95::byte)) (a @ 95 # c) = 95 # c"
  by (induction a) auto

lemma decode_encode_tablet_meta_key:
  "decode_tablet_meta_key (encode_tablet_meta_key tablet_id schema_hash) =
     Ret (Some (tablet_id, schema_hash))"
proof -
  let ?a = "dec_int (sint tablet_id)" and ?c = "dec_int (sint schema_hash)"
  have l: "\<not> length (encode_tablet_meta_key tablet_id schema_hash) \<le> length HEADER_PREFIX + 1"
    using length_dec_int [of "sint tablet_id"] length_dec_int [of "sint schema_hash"]
    by (simp add: encode_tablet_meta_key_def)
  have d: "drop (length HEADER_PREFIX) (encode_tablet_meta_key tablet_id schema_hash) = ?a @ 95 # ?c"
    and t: "take (length HEADER_PREFIX) (encode_tablet_meta_key tablet_id schema_hash) = HEADER_PREFIX"
    by (simp_all add: encode_tablet_meta_key_def)
  show ?thesis
    unfolding decode_tablet_meta_key_def
    by (simp only: l t d if_False Let_def) (simp add: split_at_underscore dec_int_no_underscore)
qed

lemma decode_encode_meta_log_key:
  "decode_meta_log_key (encode_meta_log_key tablet_id logid) = Some (tablet_id, logid)"
  by (simp add: decode_meta_log_key_def encode_meta_log_key_def)

lemma decode_encode_meta_rowset_key:
  "decode_meta_rowset_key (encode_meta_rowset_key tablet_id rowsetid) = Some (tablet_id, rowsetid)"
  by (simp add: decode_meta_rowset_key_def encode_meta_rowset_key_def)

lemma decode_encode_meta_pending_rowset_key:
  "decode_meta_pending_rowset_key (encode_meta_pending_rowset_key tablet_id version) =
     Some (tablet_id, version)"
  by (simp add: decode_meta_pending_rowset_key_def encode_meta_pending_rowset_key_def)

lemma decode_encode_del_vector_key:
  "decode_del_vector_key (encode_del_vector_key tablet_id segment_id version) =
     Ret (tablet_id, segment_id, version)"
  by (simp add: decode_del_vector_key_def encode_del_vector_key_def)

lemma append_same_less [simp]:
  fixes p :: "'a::linorder list"
  shows "(p @ x < p @ y) = (x < y)"
  by (simp add: append_less_same_length)

lemma append_same_le [simp]:
  fixes p :: "'a::linorder list"
  shows "(p @ x \<le> p @ y) = (x \<le> y)"
  by (simp add: append_le_same_length)


section \<open>The key codecs: round trip, failure and order\<close>

text \<open>
  Claim C6, as amended. For each of the five codecs and for all ids, zero and the
  maxima included, decoding the encoding gives the ids back. The log, rowset and
  pending-rowset decoders return false on a key of any other length than theirs
  (20, 16 and 20 bytes); the header decoder returns false on a key of at most 12
  bytes, and on a key with the header prefix that has no underscore after it or
  whose tablet-id or schema-hash text does not parse as an integer. The
  delete-vector decoder returns \<open>void\<close>: it has no failure result, and on a key
  whose length is not 24 its \<open>DCHECK_EQ\<close> fails.
\<close>

theorem key_codecs_round_trip:
  "decode_tablet_meta_key (encode_tablet_meta_key tablet_id schema_hash) =
     Ret (Some (tablet_id, schema_hash)) \<and>
   decode_meta_log_key (encode_meta_log_key tablet_id logid) = Some (tablet_id, logid) \<and>
   decode_meta_rowset_key (encode_meta_rowset_key tablet_id rowsetid) =
     Some (tablet_id, rowsetid) \<and>
   decode_meta_pending_rowset_key (encode_meta_pending_rowset_key tablet_id version) =
     Some (tablet_id, version) \<and>
   decode_del_vector_key (encode_del_vector_key tablet_id segment_id version) =
     Ret (tablet_id, segment_id, version) \<and>
   (length k1 \<noteq> 20 \<longrightarrow> decode_meta_log_key k1 = None) \<and>
   (length k2 \<noteq> 16 \<longrightarrow> decode_meta_rowset_key k2 = None) \<and>
   (length k3 \<noteq> 20 \<longrightarrow> decode_meta_pending_rowset_key k3 = None) \<and>
   (length k4 \<le> 12 \<longrightarrow> decode_tablet_meta_key k4 = Ret None) \<and>
   (has_prefix HEADER_PREFIX k5 \<and>
      (95 \<notin> set (drop 11 k5) \<or>
       safe_strto64 (takeWhile (\<lambda>b. b \<noteq> 95) (drop 11 k5)) = None \<or>
       safe_strto32 (tl (dropWhile (\<lambda>b. b \<noteq> 95) (drop 11 k5))) = None) \<longrightarrow>
      decode_tablet_meta_key k5 = Ret None) \<and>
   (length k6 \<noteq> 24 \<longrightarrow> decode_del_vector_key k6 = Abort)"
proof -
  have "decode_tablet_meta_key k5 = Ret None"
    if "has_prefix HEADER_PREFIX k5"
      and "95 \<notin> set (drop 11 k5) \<or>
           safe_strto64 (takeWhile (\<lambda>b. b \<noteq> 95) (drop 11 k5)) = None \<or>
           safe_strto32 (tl (dropWhile (\<lambda>b. b \<noteq> 95) (drop 11 k5))) = None"
    using that
    by (auto simp: decode_tablet_meta_key_def has_prefix_def Let_def split: option.splits)
  moreover have "length k4 \<le> 12 \<longrightarrow> decode_tablet_meta_key k4 = Ret None"
    by (simp add: decode_tablet_meta_key_def)
  moreover have "length k1 \<noteq> 20 \<longrightarrow> decode_meta_log_key k1 = None"
    and "length k2 \<noteq> 16 \<longrightarrow> decode_meta_rowset_key k2 = None"
    and "length k3 \<noteq> 20 \<longrightarrow> decode_meta_pending_rowset_key k3 = None"
    and "length k6 \<noteq> 24 \<longrightarrow> decode_del_vector_key k6 = Abort"
    by (simp_all add: decode_meta_log_key_def decode_meta_rowset_key_def
        decode_meta_pending_rowset_key_def decode_del_vector_key_def)
  ultimately show ?thesis
    by (simp only: decode_encode_tablet_meta_key decode_encode_meta_log_key
        decode_encode_meta_rowset_key decode_encode_meta_pending_rowset_key
        decode_encode_del_vector_key) blast
qed

text \<open>The amended claim at concrete keys: a 4-byte key for the three fixed-length
  decoders and the header decoder, a header key with an empty schema hash, and a log
  key given to the delete-vector decoder.\<close>

theorem key_codecs_round_trip_witness:
  "decode_meta_log_key (ascii ''tlg_'') = None \<and>
   decode_meta_rowset_key (ascii ''tlg_'') = None \<and>
   decode_meta_pending_rowset_key (ascii ''tlg_'') = None \<and>
   decode_tablet_meta_key (ascii ''tlg_'') = Ret None \<and>
   decode_tablet_meta_key (ascii ''tabletmeta_17_'') = Ret None \<and>
   decode_del_vector_key (encode_meta_log_key 1 1) = Abort"
proof -
  have p: "has_prefix HEADER_PREFIX (ascii ''tabletmeta_17_'')"
    by (simp add: has_prefix_def HEADER_PREFIX_def ascii_def)
  have q: "safe_strto32 (tl (dropWhile (\<lambda>b. b \<noteq> 95) (drop 11 (ascii ''tabletmeta_17_'')))) = None"
    by (simp add: safe_strto32_def parse_int_def ascii_def)
  have l: "length (ascii ''tlg_'') \<noteq> 20" "length (ascii ''tlg_'') \<noteq> 16"
    "length (ascii ''tlg_'') \<le> 12" "length (encode_meta_log_key 1 1) \<noteq> 24"
    by (simp_all add: ascii_def encode_meta_log_key_def)
  show ?thesis
    using key_codecs_round_trip [of _ _ _ _ _ _ "ascii ''tlg_''" "ascii ''tlg_''"
        "ascii ''tlg_''" "ascii ''tlg_''" "ascii ''tabletmeta_17_''" "encode_meta_log_key 1 1"]
      p q l
    by blast
qed

text \<open>The claim as stated fails for the delete-vector codec: given a key of the
  wrong length (here a 20-byte log key), \<open>decode_del_vector_key\<close> does not report a
  failure, it aborts on its \<open>DCHECK_EQ\<close>.\<close>

theorem del_vector_decode_wrong_length_counterexample:
  "length (encode_meta_log_key 1 1) \<noteq> 24 \<and>
   decode_del_vector_key (encode_meta_log_key 1 1) = Abort"
  by (simp add: decode_del_vector_key_def encode_meta_log_key_def)

text \<open>
  Claim C7. For a fixed tablet id and segment id and valid versions \<open>v1 < v2\<close>
  (a valid version is not negative), the delete-vector key of \<open>v1\<close> is strictly
  greater than the key of \<open>v2\<close> in the byte order of the store: higher versions
  sort first.
\<close>

theorem del_vector_key_reverse_order:
  "0 \<le> sint v1 \<Longrightarrow> sint v1 < sint v2 \<Longrightarrow>
   encode_del_vector_key tablet_id segment_id v2 < encode_del_vector_key tablet_id segment_id v1"
  by (simp add: encode_del_vector_key_def stored_version_less)

theorem del_vector_key_reverse_order_witness:
  "0 \<le> sint (3 :: 64 word) \<and> sint (3 :: 64 word) < sint (7 :: 64 word) \<and>
   encode_del_vector_key 1 2 7 < encode_del_vector_key 1 2 3"
  using del_vector_key_reverse_order [of 3 7 1 2] by simp

section \<open>Content of the store\<close>

lemma map_of_kv_put: "map_of (kv_put k v xs) = (map_of xs)(k \<mapsto> v)"
  by (induction xs) (auto simp: fun_upd_twist)

lemma map_of_filter_key:
  "map_of (filter (\<lambda>(k, v). P k) xs) k = (if P k then map_of xs k else None)"
  by (induction xs) auto

lemma map_of_kv_delete: "map_of (kv_delete k xs) = (map_of xs)(k := None)"
  by (rule ext) (simp add: kv_delete_def map_of_filter_key)

lemma map_of_kv_delete_range:
  "map_of (kv_delete_range lower upper xs) k =
     (if lower \<le> k \<and> k < upper then None else map_of xs k)"
  by (simp add: kv_delete_range_def map_of_filter_key)

section \<open>Order of keys\<close>

lemma be64_append_less [simp]: "(be64 a @ x < be64 b @ y) = (a < b \<or> a = b \<and> x < y)"
  by (simp add: append_less_same_length)

lemma be64_append_le [simp]: "(be64 a @ x \<le> be64 b @ y) = (a < b \<or> a = b \<and> x \<le> y)"
  by (simp add: append_le_same_length)

lemma be32_append_less [simp]: "(be32 a @ x < be32 b @ y) = (a < b \<or> a = b \<and> x < y)"
  by (simp add: append_less_same_length)

lemma be32_append_le [simp]: "(be32 a @ x \<le> be32 b @ y) = (a < b \<or> a = b \<and> x \<le> y)"
  by (simp add: append_le_same_length)

lemma meta_log_key_less:
  "(encode_meta_log_key t l < encode_meta_log_key t' l') = (t < t' \<or> t = t' \<and> l < l')"
  by (simp add: encode_meta_log_key_def)

lemma meta_log_key_le:
  "(encode_meta_log_key t l \<le> encode_meta_log_key t' l') = (t < t' \<or> t = t' \<and> l \<le> l')"
  by (simp add: encode_meta_log_key_def)

lemma header_key_less_log_key:
  "encode_tablet_meta_key t h < encode_meta_log_key t' l"
  by (simp add: encode_tablet_meta_key_def encode_meta_log_key_def HEADER_PREFIX_def
      TABLET_META_LOG_PREFIX_def ascii_def)

lemma del_vector_key_less:
  "(encode_del_vector_key t s v < encode_del_vector_key t' s' v') =
     (t < t' \<or> t = t' \<and> (s < s' \<or> s = s' \<and> sint v' < sint v))"
  by (simp add: encode_del_vector_key_def stored_version_less)

lemma del_vector_key_le:
  "(encode_del_vector_key t s v \<le> encode_del_vector_key t' s' v') =
     (t < t' \<or> t = t' \<and> (s < s' \<or> s = s' \<and> sint v' \<le> sint v))"
  by (simp add: encode_del_vector_key_def stored_version_le)

lemma sint_minus_one:
  fixes v :: "64 word"
  shows "- (2 ^ 63) < sint v \<Longrightarrow> sint (v - 1) = sint v - 1"
proof -
  assume a: "- (2 ^ 63) < sint v"
  have "sint v < 2 ^ 63" using sint_lt [of v] by simp
  with a have "signed_take_bit 63 (sint v - 1) = sint v - 1"
    by (intro signed_take_bit_int_eq_self) simp_all
  then show ?thesis by (simp add: sint_word_ariths)
qed

lemma header_key_not_log_key: "encode_tablet_meta_key t h \<noteq> encode_meta_log_key t' l"
  using header_key_less_log_key [of t h t' l] by simp

lemma log_key_not_header_key: "encode_meta_log_key t' l \<noteq> encode_tablet_meta_key t h"
  using header_key_less_log_key [of t h t' l] by simp


lemma range_common_prefix:
  fixes p :: "'a::linorder list"
  shows "p @ a \<le> k \<Longrightarrow> k < p @ b \<Longrightarrow> take (length p) k = p"
proof (induction p arbitrary: k)
  case Nil
  show ?case by simp
next
  case (Cons y p)
  show ?case
  proof (cases k)
    case Nil
    with Cons.prems show ?thesis by simp
  next
    case (Cons x k')
    with Cons.prems have "x = y" "p @ a \<le> k'" "k' < p @ b" by auto
    with Cons.IH [of k'] Cons show ?thesis by simp
  qed
qed

lemma del_vector_range_prefix:
  assumes "encode_del_vector_key t s v1 \<le> k" and "k < encode_del_vector_key t s v2"
  shows "has_prefix (TABLET_DELVEC_PREFIX @ be64 t @ be32 s) k"
proof -
  let ?p = "TABLET_DELVEC_PREFIX @ be64 t @ be32 s"
  have "?p @ be64 (INT64_MAX - v1) \<le> k" "k < ?p @ be64 (INT64_MAX - v2)"
    using assms by (simp_all add: encode_del_vector_key_def)
  then show ?thesis unfolding has_prefix_def by (rule range_common_prefix)
qed

lemma del_vector_key_has_prefix:
  "has_prefix (TABLET_DELVEC_PREFIX @ be64 t @ be32 s) (encode_del_vector_key t' s' v) =
     (t' = t \<and> s' = s)"
  by (auto simp: has_prefix_def encode_del_vector_key_def)


text \<open>The definitions to unfold when keys of concrete ids are compared.\<close>

lemmas example_key_simps =
  encode_meta_log_key_def encode_tablet_meta_key_def encode_meta_rowset_key_def
  encode_meta_pending_rowset_key_def encode_del_vector_key_def
  HEADER_PREFIX_def TABLET_META_LOG_PREFIX_def TABLET_META_ROWSET_PREFIX_def
  TABLET_META_PENDING_ROWSET_PREFIX_def TABLET_DELVEC_PREFIX_def
  ascii_def be64_def be32_def dec_int_def dec_digits.simps
  INT64_MAX_def UINT64_MAX_def UINT32_MAX_def

section \<open>Saving a header\<close>

text \<open>
  Claim C4. When the header carries update-engine state with a \<open>next_log_id\<close>, a
  successful \<open>save\<close> has committed one batch of two operations, the put of the
  header and the range delete of the log keys from id 0 up to \<open>next_log_id\<close>
  (excluded). After it the header key holds the serialised header, no log entry of
  the tablet with an id below \<open>next_log_id\<close> remains, every log entry of the tablet
  with an id from \<open>next_log_id\<close> on is what it was, and so is every log entry of every
  other tablet.
\<close>

theorem save_prunes_log:
  assumes "updates meta_pb = Some u" and "next_log_id u = Some next_id"
    and "save pb store tablet_id schema_hash meta_pb = Ret (OK, store')"
  shows "kv_data store' =
           foldl apply_op (kv_data store)
             [Put (encode_tablet_meta_key tablet_id schema_hash) (serialize_meta pb meta_pb),
              DeleteRange (encode_meta_log_key tablet_id 0)
                (encode_meta_log_key tablet_id next_id)] \<and>
         kv_get store' (encode_tablet_meta_key tablet_id schema_hash) =
           Some (serialize_meta pb meta_pb) \<and>
         (\<forall>logid. logid < next_id \<longrightarrow>
            kv_get store' (encode_meta_log_key tablet_id logid) = None) \<and>
         (\<forall>logid. next_id \<le> logid \<longrightarrow>
            kv_get store' (encode_meta_log_key tablet_id logid) =
            kv_get store (encode_meta_log_key tablet_id logid)) \<and>
         (\<forall>tid logid. tid \<noteq> tablet_id \<longrightarrow>
            kv_get store' (encode_meta_log_key tid logid) =
            kv_get store (encode_meta_log_key tid logid))"
proof -
  let ?key = "encode_tablet_meta_key tablet_id schema_hash"
  let ?val = "serialize_meta pb meta_pb"
  let ?lower = "encode_meta_log_key tablet_id 0"
  let ?upper = "encode_meta_log_key tablet_id next_id"
  have w: "write_batch store [Put ?key ?val, DeleteRange ?lower ?upper] = (OK, store')"
    using assms
    by (simp add: save_def Let_def batch_Put_def batch_DeleteRange_def
        split: if_splits)
  then have d: "kv_data store' = kv_delete_range ?lower ?upper (kv_put ?key ?val (kv_data store))"
    by (auto simp: write_batch_def split: if_splits)
  have g: "kv_get store' k =
      (if ?lower \<le> k \<and> k < ?upper then None
       else if k = ?key then Some ?val else kv_get store k)" for k
    by (simp add: kv_get_def d map_of_kv_delete_range map_of_kv_put)
  have h: "\<not> (?lower \<le> ?key \<and> ?key < ?upper)"
    using header_key_less_log_key [of tablet_id schema_hash tablet_id 0] by (simp add: not_le)
  show ?thesis
  proof (intro conjI allI impI)
    show "kv_data store' = foldl apply_op (kv_data store) [Put ?key ?val, DeleteRange ?lower ?upper]"
      by (simp add: d)
    show "kv_get store' ?key = Some ?val"
      using h by (simp add: g)
    show "kv_get store' (encode_meta_log_key tablet_id logid) = None" if "logid < next_id" for logid
      using that by (simp add: g meta_log_key_less meta_log_key_le)
    show "kv_get store' (encode_meta_log_key tablet_id logid) =
          kv_get store (encode_meta_log_key tablet_id logid)" if "next_id \<le> logid" for logid
    proof -
      from that have "\<not> logid < next_id" by (simp add: not_less)
      then show ?thesis
        using log_key_not_header_key [of tablet_id logid tablet_id schema_hash]
        by (simp add: g meta_log_key_less meta_log_key_le)
    qed
    show "kv_get store' (encode_meta_log_key tid logid) =
          kv_get store (encode_meta_log_key tid logid)" if "tid \<noteq> tablet_id" for tid logid
      using that log_key_not_header_key [of tid logid tablet_id schema_hash]
      by (auto simp: g meta_log_key_less meta_log_key_le)
  qed
qed


lemma save_example:
  "save example_codec (store_of [(encode_meta_log_key 1 0, [7]), (encode_meta_log_key 1 5, [8])]) 1 2
     \<lparr>schema_keys_type = PRIMARY_KEYS, updates = Some \<lparr>next_log_id = Some 3\<rparr>\<rparr> =
   Ret (OK, store_of [(encode_tablet_meta_key 1 2, [1]), (encode_meta_log_key 1 5, [8])])"
  by (simp add: save_def example_codec_def store_of_def batch_Put_def batch_DeleteRange_def
      write_batch_def kv_delete_range_def encode_meta_log_key_def encode_tablet_meta_key_def
      HEADER_PREFIX_def TABLET_META_LOG_PREFIX_def ascii_def be64_def dec_int_def
      dec_digits.simps)

theorem save_prunes_log_witness:
  "save example_codec (store_of [(encode_meta_log_key 1 0, [7]), (encode_meta_log_key 1 5, [8])]) 1 2
     \<lparr>schema_keys_type = PRIMARY_KEYS, updates = Some \<lparr>next_log_id = Some 3\<rparr>\<rparr> =
   Ret (OK, store_of [(encode_tablet_meta_key 1 2, [1]), (encode_meta_log_key 1 5, [8])]) \<and>
   kv_get (store_of [(encode_meta_log_key 1 0, [7]), (encode_meta_log_key 1 5, [8])])
     (encode_meta_log_key 1 0) = Some [7] \<and>
   kv_get (store_of [(encode_tablet_meta_key 1 2, [1]), (encode_meta_log_key 1 5, [8])])
     (encode_meta_log_key 1 0) = None \<and>
   kv_get (store_of [(encode_tablet_meta_key 1 2, [1]), (encode_meta_log_key 1 5, [8])])
     (encode_meta_log_key 1 5) = Some [8]"
proof -
  let ?store = "store_of [(encode_meta_log_key 1 0, [7]), (encode_meta_log_key 1 5, [8])]"
  let ?store' = "store_of [(encode_tablet_meta_key 1 2, [1]), (encode_meta_log_key 1 5, [8])]"
  let ?meta = "\<lparr>schema_keys_type = PRIMARY_KEYS, updates = Some \<lparr>next_log_id = Some 3\<rparr>\<rparr>"
  have u: "updates ?meta = Some \<lparr>next_log_id = Some 3\<rparr>"
    and n: "next_log_id \<lparr>next_log_id = Some (3 :: 64 word)\<rparr> = Some 3"
    by simp_all
  have b: "kv_get ?store (encode_meta_log_key 1 0) = Some [7]"
    by (simp add: kv_get_def store_of_def)
  have l: "(0 :: 64 word) < 3" "(3 :: 64 word) \<le> 5" by simp_all
  from save_prunes_log [OF u n save_example] l
  have "kv_get ?store' (encode_meta_log_key 1 0) = None"
    and "kv_get ?store' (encode_meta_log_key 1 5) = kv_get ?store (encode_meta_log_key 1 5)"
    by blast+
  moreover have "kv_get ?store (encode_meta_log_key 1 5) = Some [8]"
    by (simp add: kv_get_def store_of_def encode_meta_log_key_def be64_def)
  ultimately show ?thesis using save_example b by simp
qed

lemma save_without_next_log_id_frame:
  assumes "updates meta_pb = Some u" and "next_log_id u = None"
    and "save pb store tablet_id schema_hash meta_pb = Ret (st, store')"
  shows "(st = OK \<longrightarrow>
            kv_data store' =
              kv_put (encode_tablet_meta_key tablet_id schema_hash) (serialize_meta pb meta_pb)
                (kv_data store)) \<and>
         (st \<noteq> OK \<longrightarrow> store' = store) \<and>
         (\<forall>k. k \<noteq> encode_tablet_meta_key tablet_id schema_hash \<longrightarrow>
            kv_get store' k = kv_get store k) \<and>
         (\<forall>tid logid. kv_get store' (encode_meta_log_key tid logid) =
            kv_get store (encode_meta_log_key tid logid)) \<and>
         (schema_keys_type meta_pb = PRIMARY_KEYS \<and> \<not> write_fails store \<longrightarrow> st = OK)"
proof -
  let ?key = "encode_tablet_meta_key tablet_id schema_hash"
  let ?val = "serialize_meta pb meta_pb"
  have r: "(schema_keys_type meta_pb \<noteq> PRIMARY_KEYS \<and> (st, store') = (InvalidArgument, store)) \<or>
           (schema_keys_type meta_pb = PRIMARY_KEYS \<and> (st, store') = write_batch store [Put ?key ?val])"
    using assms
    by (auto simp: save_def Let_def batch_Put_def split: if_splits)
  then have c: "(st \<noteq> OK \<and> store' = store) \<or>
      (st = OK \<and> \<not> write_fails store \<and> kv_data store' = kv_put ?key ?val (kv_data store))"
    by (auto simp: write_batch_def split: if_splits)
  have p: "schema_keys_type meta_pb = PRIMARY_KEYS \<and> \<not> write_fails store \<longrightarrow> st = OK"
    using r by (auto simp: write_batch_def)
  have f: "kv_get store' k = kv_get store k" if "k \<noteq> ?key" for k
    using c that by (auto simp: kv_get_def map_of_kv_put)
  have l: "kv_get store' (encode_meta_log_key tid logid) =
      kv_get store (encode_meta_log_key tid logid)" for tid logid
    by (rule f) (rule log_key_not_header_key)
  from c have c1: "st = OK \<longrightarrow> kv_data store' = kv_put ?key ?val (kv_data store)"
    and c2: "st \<noteq> OK \<longrightarrow> store' = store"
    by auto
  show ?thesis
    using c1 c2 p f l by (intro conjI allI impI) blast+
qed

text \<open>
  Claim C9. When the header carries update-engine state whose \<open>next_log_id\<close> is
  absent, \<open>save\<close> stages no log pruning. It returns whenever the serialised header
  parses back (the source's own check, fatal otherwise), and whatever it returns,
  every key other than the header key, and so every log entry of every tablet, is
  what it was. When it returns
  \<open>OK\<close> the store is the old one with the header key put; otherwise the store is
  unchanged. For a header of a primary-key tablet on a store whose writes succeed it
  returns \<open>OK\<close> (a header with update-engine state whose keys type is not
  \<open>PRIMARY_KEYS\<close> is refused with \<open>InvalidArgument\<close> before anything is written).
\<close>

theorem save_without_next_log_id:
  assumes "updates meta_pb = Some u" and "next_log_id u = None"
  shows "(parse_meta pb (serialize_meta pb meta_pb) \<noteq> None \<longrightarrow>
            (\<exists>st store'. save pb store tablet_id schema_hash meta_pb = Ret (st, store'))) \<and>
         (\<forall>st store'. save pb store tablet_id schema_hash meta_pb = Ret (st, store') \<longrightarrow>
            (st = OK \<longrightarrow>
               kv_data store' =
                 kv_put (encode_tablet_meta_key tablet_id schema_hash)
                   (serialize_meta pb meta_pb) (kv_data store)) \<and>
            (st \<noteq> OK \<longrightarrow> store' = store) \<and>
            (\<forall>k. k \<noteq> encode_tablet_meta_key tablet_id schema_hash \<longrightarrow>
               kv_get store' k = kv_get store k) \<and>
            (\<forall>tid logid. kv_get store' (encode_meta_log_key tid logid) =
               kv_get store (encode_meta_log_key tid logid)) \<and>
            (schema_keys_type meta_pb = PRIMARY_KEYS \<and> \<not> write_fails store \<longrightarrow> st = OK))"
proof (intro conjI impI allI)
  assume "parse_meta pb (serialize_meta pb meta_pb) \<noteq> None"
  then show "\<exists>st store'. save pb store tablet_id schema_hash meta_pb = Ret (st, store')"
    using assms
    by (cases "write_batch store
          [Put (encode_tablet_meta_key tablet_id schema_hash) (serialize_meta pb meta_pb)]")
      (auto simp: save_def Let_def batch_Put_def)
next
  fix st store'
  assume r: "save pb store tablet_id schema_hash meta_pb = Ret (st, store')"
  note f = save_without_next_log_id_frame [OF assms r]
  {
    assume "st = OK"
    with f show "kv_data store' =
        kv_put (encode_tablet_meta_key tablet_id schema_hash) (serialize_meta pb meta_pb)
          (kv_data store)"
      by blast
  next
    assume "st \<noteq> OK"
    with f show "store' = store" by blast
  next
    fix k
    assume "k \<noteq> encode_tablet_meta_key tablet_id schema_hash"
    with f show "kv_get store' k = kv_get store k" by blast
  next
    fix tid logid
    from f show "kv_get store' (encode_meta_log_key tid logid) =
        kv_get store (encode_meta_log_key tid logid)"
      by blast
  next
    assume "schema_keys_type meta_pb = PRIMARY_KEYS \<and> \<not> write_fails store"
    with f show "st = OK" by blast
  }
qed

lemma save_example_no_next_log_id:
  "save example_codec (store_of [(encode_meta_log_key 1 0, [7])]) 1 2
     \<lparr>schema_keys_type = PRIMARY_KEYS, updates = Some \<lparr>next_log_id = None\<rparr>\<rparr> =
   Ret (OK, store_of [(encode_tablet_meta_key 1 2, [1]), (encode_meta_log_key 1 0, [7])])"
  by (simp add: save_def example_codec_def store_of_def batch_Put_def
      write_batch_def encode_meta_log_key_def encode_tablet_meta_key_def
      HEADER_PREFIX_def TABLET_META_LOG_PREFIX_def ascii_def be64_def dec_int_def
      dec_digits.simps)

theorem save_without_next_log_id_witness:
  "save example_codec (store_of [(encode_meta_log_key 1 0, [7])]) 1 2
     \<lparr>schema_keys_type = PRIMARY_KEYS, updates = Some \<lparr>next_log_id = None\<rparr>\<rparr> =
   Ret (OK, store_of [(encode_tablet_meta_key 1 2, [1]), (encode_meta_log_key 1 0, [7])]) \<and>
   kv_data (store_of [(encode_tablet_meta_key 1 2, [1]), (encode_meta_log_key 1 0, [7])]) =
     kv_put (encode_tablet_meta_key 1 2)
       (serialize_meta example_codec
          \<lparr>schema_keys_type = PRIMARY_KEYS, updates = Some \<lparr>next_log_id = None\<rparr>\<rparr>)
       (kv_data (store_of [(encode_meta_log_key 1 0, [7])])) \<and>
   kv_get (store_of [(encode_tablet_meta_key 1 2, [1]), (encode_meta_log_key 1 0, [7])])
     (encode_meta_log_key 1 0) = Some [7]"
proof -
  let ?store = "store_of [(encode_meta_log_key 1 0, [7])]"
  let ?store' = "store_of [(encode_tablet_meta_key 1 2, [1]), (encode_meta_log_key 1 0, [7])]"
  let ?meta = "\<lparr>schema_keys_type = PRIMARY_KEYS, updates = Some \<lparr>next_log_id = None\<rparr>\<rparr>"
  have u: "updates ?meta = Some \<lparr>next_log_id = None\<rparr>"
    and n: "next_log_id \<lparr>next_log_id = (None :: 64 word option)\<rparr> = None"
    by simp_all
  have b: "kv_get ?store (encode_meta_log_key 1 0) = Some [7]"
    by (simp add: kv_get_def store_of_def)
  from save_without_next_log_id [OF u n, THEN conjunct2, rule_format,
      OF save_example_no_next_log_id]
  have "kv_data ?store' =
      kv_put (encode_tablet_meta_key 1 2) (serialize_meta example_codec ?meta) (kv_data ?store)"
    and "kv_get ?store' (encode_meta_log_key 1 0) = kv_get ?store (encode_meta_log_key 1 0)"
    by blast+
  then show ?thesis using save_example_no_next_log_id b by simp
qed


section \<open>Deleting a range of delete vectors\<close>

text \<open>
  Claim C5, as amended. \<open>delete_del_vector_range\<close> returns \<open>OK\<close> and the unchanged store
  when \<open>start_version = end_version\<close>, and \<open>InvalidArgument\<close> and the unchanged store
  when \<open>start_version > end_version\<close>. Otherwise, for every \<open>start_version\<close> but the
  least \<open>int64_t\<close> (negative ones too) and a store whose write succeeds, it returns
  \<open>OK\<close>, and in the store after it the delete vector of the segment at version \<open>v\<close> is
  absent when \<open>start_version \<le> v < end_version\<close> and is what it was for every other
  \<open>v\<close>; every key that does not start with the delete-vector prefix of this tablet and
  segment (other segments, other tablets, other record families) is what it was.
\<close>

theorem delete_del_vector_range_removes_versions:
  "(start_version = end_version \<longrightarrow>
      delete_del_vector_range meta tablet_id segment_id start_version end_version = (OK, meta)) \<and>
   (sint start_version > sint end_version \<longrightarrow>
      delete_del_vector_range meta tablet_id segment_id start_version end_version =
        (InvalidArgument, meta)) \<and>
   (- (2 ^ 63) < sint start_version \<and> sint start_version < sint end_version \<and>
    \<not> write_fails meta \<longrightarrow>
      (\<exists>meta'.
         delete_del_vector_range meta tablet_id segment_id start_version end_version = (OK, meta') \<and>
         (\<forall>v. kv_get meta' (encode_del_vector_key tablet_id segment_id v) =
                (if sint start_version \<le> sint v \<and> sint v < sint end_version then None
                 else kv_get meta (encode_del_vector_key tablet_id segment_id v))) \<and>
         (\<forall>k. \<not> has_prefix (TABLET_DELVEC_PREFIX @ be64 tablet_id @ be32 segment_id) k \<longrightarrow>
                kv_get meta' k = kv_get meta k)))"
proof (intro conjI impI)
  show "delete_del_vector_range meta tablet_id segment_id start_version end_version = (OK, meta)"
    if "start_version = end_version"
    using that by (simp add: delete_del_vector_range_def)
  show "delete_del_vector_range meta tablet_id segment_id start_version end_version =
      (InvalidArgument, meta)"
    if "sint start_version > sint end_version"
    using that by (auto simp: delete_del_vector_range_def)
  assume a: "- (2 ^ 63) < sint start_version \<and> sint start_version < sint end_version \<and>
    \<not> write_fails meta"
  let ?b = "encode_del_vector_key tablet_id segment_id (end_version - 1)"
  let ?e = "encode_del_vector_key tablet_id segment_id (start_version - 1)"
  let ?meta' = "meta\<lparr>kv_data := kv_delete_range ?b ?e (kv_data meta)\<rparr>"
  from a have ne: "start_version \<noteq> end_version" by auto
  have r: "delete_del_vector_range meta tablet_id segment_id start_version end_version = (OK, ?meta')"
    using a ne by (simp add: delete_del_vector_range_def Let_def batch_DeleteRange_def write_batch_def)
  have g: "kv_get ?meta' k = (if ?b \<le> k \<and> k < ?e then None else kv_get meta k)" for k
    by (simp add: kv_get_def map_of_kv_delete_range)
  have se: "sint (end_version - 1) = sint end_version - 1"
    and ss: "sint (start_version - 1) = sint start_version - 1"
    using a by (simp_all add: sint_minus_one)
  have v: "kv_get ?meta' (encode_del_vector_key tablet_id segment_id v) =
      (if sint start_version \<le> sint v \<and> sint v < sint end_version then None
       else kv_get meta (encode_del_vector_key tablet_id segment_id v))" for v
    by (auto simp: g del_vector_key_less del_vector_key_le se ss)
  have f: "kv_get ?meta' k = kv_get meta k"
    if "\<not> has_prefix (TABLET_DELVEC_PREFIX @ be64 tablet_id @ be32 segment_id) k" for k
    using that del_vector_range_prefix [of tablet_id segment_id "end_version - 1" k "start_version - 1"]
    by (auto simp: g)
  show "\<exists>meta'.
         delete_del_vector_range meta tablet_id segment_id start_version end_version = (OK, meta') \<and>
         (\<forall>v. kv_get meta' (encode_del_vector_key tablet_id segment_id v) =
                (if sint start_version \<le> sint v \<and> sint v < sint end_version then None
                 else kv_get meta (encode_del_vector_key tablet_id segment_id v))) \<and>
         (\<forall>k. \<not> has_prefix (TABLET_DELVEC_PREFIX @ be64 tablet_id @ be32 segment_id) k \<longrightarrow>
                kv_get meta' k = kv_get meta k)"
    using r v f by blast
qed

theorem delete_del_vector_range_removes_versions_witness:
  "delete_del_vector_range delvec_store 1 2 5 5 = (OK, delvec_store) \<and>
   delete_del_vector_range delvec_store 1 2 8 5 = (InvalidArgument, delvec_store) \<and>
   (\<exists>meta'. delete_del_vector_range delvec_store 1 2 3 10 = (OK, meta') \<and>
      kv_get meta' (encode_del_vector_key 1 2 3) = None \<and>
      kv_get meta' (encode_del_vector_key 1 2 7) = None \<and>
      kv_get meta' (encode_del_vector_key 1 2 10) = Some [10]) \<and>
   (\<exists>meta'. delete_del_vector_range delvec_store 1 2 (- 2) 7 = (OK, meta') \<and>
      kv_get meta' (encode_del_vector_key 1 2 3) = None \<and>
      kv_get meta' (encode_del_vector_key 1 2 7) = Some [7] \<and>
      kv_get meta' (encode_del_vector_key 1 2 10) = Some [10])"
proof -
  have w: "\<not> write_fails delvec_store"
    by (simp add: delvec_store_def store_of_def)
  have k: "kv_get delvec_store (encode_del_vector_key 1 2 10) = Some [10]"
    "kv_get delvec_store (encode_del_vector_key 1 2 7) = Some [7]"
    by (simp_all add: delvec_store_def store_of_def kv_get_def example_key_simps)
  have s: "sint (8 :: 64 word) > sint (5 :: 64 word)"
    "- (2 ^ 63) < sint (3 :: 64 word)" "sint (3 :: 64 word) < sint (10 :: 64 word)"
    "sint (3 :: 64 word) \<le> sint (7 :: 64 word)" "sint (7 :: 64 word) < sint (10 :: 64 word)"
    by simp_all
  have n: "sint (- 2 :: 64 word) = - 2" by simp
  have s': "- (2 ^ 63) < sint (- 2 :: 64 word)" "sint (- 2 :: 64 word) < sint (7 :: 64 word)"
    "sint (- 2 :: 64 word) \<le> sint (3 :: 64 word)" "sint (3 :: 64 word) < sint (7 :: 64 word)"
    by (simp_all add: n)
  from delete_del_vector_range_removes_versions [of 5 5 delvec_store 1 2]
  have a: "delete_del_vector_range delvec_store 1 2 5 5 = (OK, delvec_store)"
    by simp
  from delete_del_vector_range_removes_versions [of 8 5 delvec_store 1 2] s
  have b: "delete_del_vector_range delvec_store 1 2 8 5 = (InvalidArgument, delvec_store)"
    by blast
  from delete_del_vector_range_removes_versions [of 3 10 delvec_store 1 2] s w
  obtain meta' where m: "delete_del_vector_range delvec_store 1 2 3 10 = (OK, meta')"
    and v: "\<And>v. kv_get meta' (encode_del_vector_key 1 2 v) =
                (if sint (3 :: 64 word) \<le> sint v \<and> sint v < sint (10 :: 64 word) then None
                 else kv_get delvec_store (encode_del_vector_key 1 2 v))"
    by blast
  have c: "kv_get meta' (encode_del_vector_key 1 2 3) = None"
    "kv_get meta' (encode_del_vector_key 1 2 7) = None"
    "kv_get meta' (encode_del_vector_key 1 2 10) = Some [10]"
    using k by (simp_all add: v)
  from delete_del_vector_range_removes_versions [of "- 2" 7 delvec_store 1 2] s' w
  obtain meta'' where m': "delete_del_vector_range delvec_store 1 2 (- 2) 7 = (OK, meta'')"
    and v': "\<And>v. kv_get meta'' (encode_del_vector_key 1 2 v) =
                (if sint (- 2 :: 64 word) \<le> sint v \<and> sint v < sint (7 :: 64 word) then None
                 else kv_get delvec_store (encode_del_vector_key 1 2 v))"
    by blast
  have c': "kv_get meta'' (encode_del_vector_key 1 2 3) = None"
    "kv_get meta'' (encode_del_vector_key 1 2 7) = Some [7]"
    "kv_get meta'' (encode_del_vector_key 1 2 10) = Some [10]"
    using k s' by (simp_all add: v')
  from a b m c m' c' show ?thesis by blast
qed

text \<open>
  The claim as stated fails at the least \<open>int64_t\<close> as \<open>start_version\<close>, where
  \<open>start_version - 1\<close> overflows: the end key of the range delete is then the key of
  version \<open>INT64_MAX\<close>, the least key of the segment, the range is empty and nothing is
  removed. With the delete vectors of versions 3, 7 and 10, version 3 lies between the
  least \<open>int64_t\<close> and 5 and is still stored afterwards.
\<close>

theorem delete_del_vector_range_least_start_counterexample:
  "sint (- (2 ^ 63) :: 64 word) < sint (5 :: 64 word) \<and>
   sint (- (2 ^ 63) :: 64 word) \<le> sint (3 :: 64 word) \<and>
   sint (3 :: 64 word) < sint (5 :: 64 word) \<and>
   kv_get delvec_store (encode_del_vector_key 1 2 3) = Some [3] \<and>
   kv_get (snd (delete_del_vector_range delvec_store 1 2 (- (2 ^ 63)) 5))
     (encode_del_vector_key 1 2 3) = Some [3]"
proof -
  have n: "sint (- (2 ^ 63) :: 64 word) = - (2 ^ 63)" by simp
  have e: "(- 9223372036854775809 :: 64 word) = INT64_MAX" by (simp add: INT64_MAX_def)
  have g: "kv_get delvec_store (encode_del_vector_key 1 2 3) = Some [3]"
    by (simp add: delvec_store_def store_of_def kv_get_def example_key_simps)
  have l: "\<not> (encode_del_vector_key 1 2 3 < encode_del_vector_key 1 2 INT64_MAX)"
    by (simp add: del_vector_key_less INT64_MAX_def)
  have w: "\<not> write_fails delvec_store"
    by (simp add: delvec_store_def store_of_def)
  have "kv_get (snd (delete_del_vector_range delvec_store 1 2 (- (2 ^ 63)) 5))
     (encode_del_vector_key 1 2 3) = Some [3]"
    using g l w
    by (simp add: delete_del_vector_range_def n e Let_def batch_DeleteRange_def write_batch_def
        kv_get_def map_of_kv_delete_range)
  with g show ?thesis by (simp add: n)
qed

section \<open>Traversals and keys that do not decode\<close>

lemma meta_log_visit_corruption:
  assumes "k \<in> set (visited (meta_log_visitor pb tablet_id func) xs (ret, s))"
    and "decode_meta_log_key k = None"
  shows "(\<exists>s'. visit (meta_log_visitor pb tablet_id func) xs (ret, s) = Ret (Corruption, s')) \<and>
         last (visited (meta_log_visitor pb tablet_id func) xs (ret, s)) = k"
  using assms
proof (induction xs arbitrary: ret s)
  case Nil
  then show ?case by simp
next
  case (Cons kv r)
  obtain k' v' where kv: "kv = (k', v')" by (cases kv)
  let ?f = "meta_log_visitor pb tablet_id func"
  show ?case
  proof (cases "?f k' v' (ret, s)")
    case Abort
    with Cons.prems kv have "k = k'" by simp
    with Abort Cons.prems(2) show ?thesis
      by (simp add: meta_log_visitor_def split: option.splits if_splits prod.splits)
  next
    case (Ret cs)
    obtain c ret' s' where cs: "cs = (c, ret', s')" by (cases cs)
    show ?thesis
    proof (cases c)
      case False
      with Cons.prems kv Ret cs have e: "k = k'" by simp
      with Ret cs False Cons.prems(2) have "ret' = Corruption"
        by (auto simp: meta_log_visitor_def split: option.splits if_splits prod.splits)
      with Ret cs False kv e show ?thesis by simp
    next
      case True
      with Ret cs have d: "decode_meta_log_key k' \<noteq> None" and r: "ret' = ret"
        by (auto simp: meta_log_visitor_def split: option.splits if_splits prod.splits)
      with Cons.prems(2) have "k \<noteq> k'" by auto
      with Cons.prems(1) kv Ret cs True
      have m: "k \<in> set (visited ?f r (ret', s'))" by simp
      then have ne: "visited ?f r (ret', s') \<noteq> []" by auto
      from Cons.IH [OF m Cons.prems(2)] Ret cs True kv ne show ?thesis by simp
    qed
  qed
qed

lemma pending_visit_stops:
  assumes "k \<in> set (visited (pending_rowset_visitor func) xs s)"
    and "decode_meta_pending_rowset_key k = None"
  shows "last (visited (pending_rowset_visitor func) xs s) = k"
  using assms
proof (induction xs arbitrary: s)
  case Nil
  then show ?case by simp
next
  case (Cons kv r)
  obtain k' v' where kv: "kv = (k', v')" by (cases kv)
  let ?f = "pending_rowset_visitor func"
  show ?case
  proof (cases "decode_meta_pending_rowset_key k'")
    case None
    with Cons.prems kv show ?thesis by (simp add: pending_rowset_visitor_def)
  next
    case (Some tv)
    with Cons.prems(2) have n: "k \<noteq> k'" by auto
    obtain tid version where tv: "tv = (tid, version)" by (cases tv)
    obtain c s' where fc: "func version v' s = (c, s')" by (cases "func version v' s")
    have f: "?f k' v' s = Ret (c, s')"
      using Some tv fc by (simp add: pending_rowset_visitor_def)
    show ?thesis
    proof (cases c)
      case False
      with Cons.prems(1) kv f n show ?thesis by simp
    next
      case True
      with Cons.prems(1) kv f n have m: "k \<in> set (visited ?f r s')" by simp
      then have ne: "visited ?f r s' \<noteq> []" by auto
      from Cons.IH [OF m Cons.prems(2)] kv f True ne show ?thesis by simp
    qed
  qed
qed

lemma header_visit_skips:
  "visit (traverse_header_func func) xs s =
   visit (traverse_header_func func)
     (filter (\<lambda>(k, v). decode_tablet_meta_key k \<noteq> Ret None) xs) s"
proof (induction xs arbitrary: s)
  case Nil
  show ?case by simp
next
  case (Cons kv r)
  obtain k v where kv: "kv = (k, v)" by (cases kv)
  show ?case
  proof (cases "decode_tablet_meta_key k = Ret None")
    case True
    with Cons kv show ?thesis by (simp add: traverse_header_func_def)
  next
    case False
    show ?thesis
    proof (cases "traverse_header_func func k v s")
      case Abort
      with False kv show ?thesis by simp
    next
      case (Ret cs)
      obtain c s' where cs: "cs = (c, s')" by (cases cs)
      with Ret False kv Cons [of s'] show ?thesis by simp
    qed
  qed
qed

lemma scan_prefix_filter:
  "scan_prefix p (filter (\<lambda>(k, v). Q k) xs) = filter (\<lambda>(k, v). Q k) (scan_prefix p xs)"
  by (induction xs) (auto simp: scan_prefix_def)

lemma visit_stops_at:
  assumes "\<And>s. f k v s = Ret (False, s)"
  shows "visit f (pre @ (k, v) # rest) s = visit f pre s"
proof (induction pre arbitrary: s)
  case Nil
  show ?case by (simp add: assms)
next
  case (Cons a pre)
  obtain ka va where a: "a = (ka, va)" by (cases a)
  show ?case
  proof (cases "f ka va s")
    case Abort
    then show ?thesis by (simp add: a)
  next
    case (Ret cs)
    obtain c s' where cs: "cs = (c, s')" by (cases cs)
    with Ret Cons [of s'] show ?thesis by (simp add: a)
  qed
qed

lemma scan_prefix_of_scanned:
  assumes "scan_prefix p data = pre @ rest"
  shows "scan_prefix p pre = pre"
proof -
  have "\<forall>kv \<in> set (scan_prefix p data). case kv of (k, v) \<Rightarrow> has_prefix p k"
    by (simp add: scan_prefix_def)
  with assms have "\<forall>kv \<in> set pre. case kv of (k, v) \<Rightarrow> has_prefix p k"
    by simp
  then show ?thesis
    unfolding scan_prefix_def by (simp add: filter_id_conv)
qed

lemma traverse_meta_logs_corruption:
  assumes "\<not> read_fails store"
    and m: "k \<in> set (visited (meta_log_visitor pb tablet_id func)
               (scan_range (range_end_included store) (encode_meta_log_key tablet_id 0)
                  (encode_meta_log_key tablet_id UINT64_MAX) (kv_data store)) (OK, s))"
    and d: "decode_meta_log_key k = None"
  shows "\<exists>s'. traverse_meta_logs pb store tablet_id func s = Ret (Corruption, s')"
proof -
  let ?xs = "scan_range (range_end_included store) (encode_meta_log_key tablet_id 0)
               (encode_meta_log_key tablet_id UINT64_MAX) (kv_data store)"
  from meta_log_visit_corruption [OF m d]
  obtain s' where v: "visit (meta_log_visitor pb tablet_id func) ?xs (OK, s) = Ret (Corruption, s')"
    by blast
  with assms(1) show ?thesis
    by (simp add: traverse_meta_logs_def iterate_range_def)
qed

lemma traverse_headers_skips:
  "traverse_headers store hfunc hs =
     traverse_headers
       (store\<lparr>kv_data := filter (\<lambda>(k, v). decode_tablet_meta_key k \<noteq> Ret None) (kv_data store)\<rparr>)
       hfunc hs"
proof -
  let ?f = "traverse_header_func hfunc"
  let ?q = "\<lambda>(k, v). decode_tablet_meta_key k \<noteq> Ret None"
  have "visit ?f (scan_prefix HEADER_PREFIX (kv_data store)) hs =
      visit ?f (filter ?q (scan_prefix HEADER_PREFIX (kv_data store))) hs"
    by (rule header_visit_skips)
  also have "filter ?q (scan_prefix HEADER_PREFIX (kv_data store)) =
      scan_prefix HEADER_PREFIX (filter ?q (kv_data store))"
    by (simp only: scan_prefix_filter)
  finally have e: "visit ?f (scan_prefix HEADER_PREFIX (kv_data store)) hs =
      visit ?f (scan_prefix HEADER_PREFIX (filter ?q (kv_data store))) hs" .
  show ?thesis
    by (simp add: traverse_headers_def iterate_def e)
qed

lemma traverse_headers_never_corruption:
  "traverse_headers store hfunc hs \<noteq> Ret (Corruption, hs')"
  by (simp add: traverse_headers_def iterate_def split: res.splits)

text \<open>
  Claim C8, as amended. When the scan of \<open>traverse_meta_logs\<close> calls its visitor on a
  key that does not decode, on a store that can be read, that key is the last one
  visited and the operation returns \<open>Corruption\<close>. When the scan of
  \<open>pending_rowset_iterate\<close> calls its visitor on a key that does not decode, that key is
  the last one visited; and when the keys under the prefix of the tablet hold a key
  that does not decode, \<open>pending_rowset_iterate\<close> returns, for every callback, what it
  returns on the store cut off before that key: the callback is called on no record
  at or after it. \<open>traverse_headers\<close> skips a key that does not decode and continues:
  its result is the result on the store without such keys, and it never returns
  \<open>Corruption\<close>.
\<close>

theorem traversals_on_undecodable_key:
  "(\<not> read_fails store \<and>
    k \<in> set (visited (meta_log_visitor pb tablet_id func)
               (scan_range (range_end_included store) (encode_meta_log_key tablet_id 0)
                  (encode_meta_log_key tablet_id UINT64_MAX) (kv_data store)) (OK, s)) \<and>
    decode_meta_log_key k = None \<longrightarrow>
      (\<exists>s'. traverse_meta_logs pb store tablet_id func s = Ret (Corruption, s')) \<and>
      last (visited (meta_log_visitor pb tablet_id func)
              (scan_range (range_end_included store) (encode_meta_log_key tablet_id 0)
                 (encode_meta_log_key tablet_id UINT64_MAX) (kv_data store)) (OK, s)) = k) \<and>
   (k' \<in> set (visited (pending_rowset_visitor pfunc)
                (scan_prefix (TABLET_META_PENDING_ROWSET_PREFIX @ be64 tablet_id) (kv_data store))
                ps) \<and>
    decode_meta_pending_rowset_key k' = None \<longrightarrow>
      last (visited (pending_rowset_visitor pfunc)
              (scan_prefix (TABLET_META_PENDING_ROWSET_PREFIX @ be64 tablet_id) (kv_data store))
              ps) = k') \<and>
   (scan_prefix (TABLET_META_PENDING_ROWSET_PREFIX @ be64 tablet_id) (kv_data store) =
      pre @ (k', v') # rest \<and>
    decode_meta_pending_rowset_key k' = None \<longrightarrow>
      pending_rowset_iterate store tablet_id pfunc ps =
        pending_rowset_iterate (store\<lparr>kv_data := pre\<rparr>) tablet_id pfunc ps) \<and>
   traverse_headers store hfunc hs =
     traverse_headers
       (store\<lparr>kv_data := filter (\<lambda>(k, v). decode_tablet_meta_key k \<noteq> Ret None) (kv_data store)\<rparr>)
       hfunc hs \<and>
   (\<forall>hs'. traverse_headers store hfunc hs \<noteq> Ret (Corruption, hs'))"
  (is "(?A \<longrightarrow> ?B1 \<and> ?B2) \<and> (?C \<longrightarrow> ?D) \<and> (?G \<longrightarrow> ?H) \<and> ?E \<and> ?F")
proof -
  have 1: "?A \<longrightarrow> ?B1 \<and> ?B2"
  proof
    assume a: ?A
    then have rf: "\<not> read_fails store"
      and m: "k \<in> set (visited (meta_log_visitor pb tablet_id func)
               (scan_range (range_end_included store) (encode_meta_log_key tablet_id 0)
                  (encode_meta_log_key tablet_id UINT64_MAX) (kv_data store)) (OK, s))"
      and d: "decode_meta_log_key k = None"
      by simp_all
    have "?B1" by (rule traverse_meta_logs_corruption [OF rf m d])
    moreover have "?B2" by (rule conjunct2 [OF meta_log_visit_corruption [OF m d]])
    ultimately show "?B1 \<and> ?B2" ..
  qed
  have 2: "?C \<longrightarrow> ?D"
  proof
    assume c: ?C
    then have m: "k' \<in> set (visited (pending_rowset_visitor pfunc)
                (scan_prefix (TABLET_META_PENDING_ROWSET_PREFIX @ be64 tablet_id) (kv_data store))
                ps)"
      and d: "decode_meta_pending_rowset_key k' = None"
      by simp_all
    show ?D by (rule pending_visit_stops [OF m d])
  qed
  have 5: "?G \<longrightarrow> ?H"
  proof
    assume g: ?G
    then have sc: "scan_prefix (TABLET_META_PENDING_ROWSET_PREFIX @ be64 tablet_id)
        (kv_data store) = pre @ (k', v') # rest"
      and d: "decode_meta_pending_rowset_key k' = None"
      by simp_all
    have stop: "pending_rowset_visitor pfunc k' v' s' = Ret (False, s')" for s'
      using d by (simp add: pending_rowset_visitor_def)
    have v: "visit (pending_rowset_visitor pfunc)
        (scan_prefix (TABLET_META_PENDING_ROWSET_PREFIX @ be64 tablet_id) (kv_data store)) ps =
        visit (pending_rowset_visitor pfunc) pre ps"
      unfolding sc using stop by (rule visit_stops_at)
    have c: "scan_prefix (TABLET_META_PENDING_ROWSET_PREFIX @ be64 tablet_id) pre = pre"
      using sc by (rule scan_prefix_of_scanned)
    show ?H
      by (simp add: pending_rowset_iterate_def iterate_def v c)
  qed
  have 3: ?E by (rule traverse_headers_skips)
  have 4: ?F by (intro allI traverse_headers_never_corruption)
  from 1 2 5 3 4 show ?thesis by (intro conjI)
qed

lemma corrupt_log_visited:
  "visited (meta_log_visitor example_codec 1 (\<lambda>logid log acc. (True, acc @ [logid])))
     (scan_range (range_end_included corrupt_key_store) (encode_meta_log_key 1 0)
        (encode_meta_log_key 1 UINT64_MAX)
        (kv_data corrupt_key_store)) (OK, []) =
   [encode_meta_log_key 1 0, encode_meta_log_key 1 0 @ [0]]"
  by (simp add: corrupt_key_store_def store_of_def scan_range_def meta_log_visitor_def
      decode_meta_log_key_def example_codec_def load_be64_def example_key_simps)

lemma corrupt_pending_visited:
  "visited (pending_rowset_visitor (\<lambda>version value acc. (True, acc @ [version])))
     (scan_prefix (TABLET_META_PENDING_ROWSET_PREFIX @ be64 1) (kv_data corrupt_key_store)) [] =
   [encode_meta_pending_rowset_key 1 3, encode_meta_pending_rowset_key 1 3 @ [0]]"
  by (simp add: corrupt_key_store_def store_of_def scan_prefix_def has_prefix_def
      pending_rowset_visitor_def decode_meta_pending_rowset_key_def example_key_simps)

lemma corrupt_pending_scan:
  "scan_prefix (TABLET_META_PENDING_ROWSET_PREFIX @ be64 1) (kv_data corrupt_key_store) =
     [(encode_meta_pending_rowset_key 1 3, [9])] @
     (encode_meta_pending_rowset_key 1 3 @ [0], [9]) # [(encode_meta_pending_rowset_key 1 5, [9])]"
  by (simp add: corrupt_key_store_def store_of_def scan_prefix_def has_prefix_def
      example_key_simps)

lemma corrupt_pending_cut_off:
  "pending_rowset_iterate
     (corrupt_key_store\<lparr>kv_data := [(encode_meta_pending_rowset_key 1 3, [9])]\<rparr>) 1
     (\<lambda>version value acc. (True, acc @ [version])) [] = Ret (OK, [3])"
  by (simp add: pending_rowset_iterate_def iterate_def corrupt_key_store_def store_of_def
      scan_prefix_def has_prefix_def pending_rowset_visitor_def
      decode_meta_pending_rowset_key_def load_be64_def example_key_simps)

theorem traversals_on_undecodable_key_witness:
  "(\<exists>s'. traverse_meta_logs example_codec corrupt_key_store 1
           (\<lambda>logid log acc. (True, acc @ [logid])) [] = Ret (Corruption, s')) \<and>
   last (visited (meta_log_visitor example_codec 1 (\<lambda>logid log acc. (True, acc @ [logid])))
           (scan_range (range_end_included corrupt_key_store) (encode_meta_log_key 1 0)
              (encode_meta_log_key 1 UINT64_MAX) (kv_data corrupt_key_store)) (OK, [])) =
     encode_meta_log_key 1 0 @ [0] \<and>
   last (visited (pending_rowset_visitor (\<lambda>version value acc. (True, acc @ [version])))
           (scan_prefix (TABLET_META_PENDING_ROWSET_PREFIX @ be64 1) (kv_data corrupt_key_store))
           []) = encode_meta_pending_rowset_key 1 3 @ [0] \<and>
   kv_get corrupt_key_store (encode_meta_pending_rowset_key 1 5) = Some [9] \<and>
   pending_rowset_iterate corrupt_key_store 1 (\<lambda>version value acc. (True, acc @ [version])) [] =
     Ret (OK, [3])"
proof -
  have r: "\<not> read_fails corrupt_key_store"
    by (simp add: corrupt_key_store_def store_of_def)
  have m: "encode_meta_log_key 1 0 @ [0] \<in>
      set (visited (meta_log_visitor example_codec 1 (\<lambda>logid log acc. (True, acc @ [logid])))
        (scan_range (range_end_included corrupt_key_store) (encode_meta_log_key 1 0)
           (encode_meta_log_key 1 UINT64_MAX) (kv_data corrupt_key_store)) (OK, []))"
    by (simp only: corrupt_log_visited) simp
  have d: "decode_meta_log_key (encode_meta_log_key 1 0 @ [0]) = None"
    by (simp add: decode_meta_log_key_def encode_meta_log_key_def)
  have m': "encode_meta_pending_rowset_key 1 3 @ [0] \<in>
      set (visited (pending_rowset_visitor (\<lambda>version value acc. (True, acc @ [version])))
        (scan_prefix (TABLET_META_PENDING_ROWSET_PREFIX @ be64 1) (kv_data corrupt_key_store)) [])"
    by (simp only: corrupt_pending_visited) simp
  have d': "decode_meta_pending_rowset_key (encode_meta_pending_rowset_key 1 3 @ [0]) = None"
    by (simp add: decode_meta_pending_rowset_key_def encode_meta_pending_rowset_key_def)
  have g: "kv_get corrupt_key_store (encode_meta_pending_rowset_key 1 5) = Some [9]"
    by (simp add: kv_get_def corrupt_key_store_def store_of_def example_key_simps)
  note t = traversals_on_undecodable_key [of corrupt_key_store "encode_meta_log_key 1 0 @ [0]"
      example_codec 1 "\<lambda>logid log acc. (True, acc @ [logid])" "[]"
      "encode_meta_pending_rowset_key 1 3 @ [0]"
      "\<lambda>version value acc. (True, acc @ [version])" "[]"
      "[(encode_meta_pending_rowset_key 1 3, [9])]" "[9]"
      "[(encode_meta_pending_rowset_key 1 5, [9])]"]
  note a = t [THEN conjunct1, THEN mp, OF conjI [OF r conjI [OF m d]]]
  note b = t [THEN conjunct2, THEN conjunct1, THEN mp, OF conjI [OF m' d']]
  note c = t [THEN conjunct2, THEN conjunct2, THEN conjunct1, THEN mp,
      OF conjI [OF corrupt_pending_scan d']]
  have e: "pending_rowset_iterate corrupt_key_store 1
      (\<lambda>version value acc. (True, acc @ [version])) [] = Ret (OK, [3])"
    using c by (simp only: corrupt_pending_cut_off)
  from a [THEN conjunct1] a [THEN conjunct2] b g e show ?thesis by (intro conjI)
qed

text \<open>
  The claim as stated fails for two of the three traversals. \<open>traverse_headers\<close> visits
  the stored key \<open>tabletmeta_0\<close>, which does not decode, then goes on to the header of
  tablet 1 and returns \<open>OK\<close>. \<open>pending_rowset_iterate\<close> yields the pending rowset of
  version 3 of tablet 1, visits a 21-byte key under the prefix of that tablet, which
  does not decode, and returns \<open>OK\<close>.
\<close>

theorem traversal_undecodable_key_counterexample:
  "decode_tablet_meta_key (ascii ''tabletmeta_0'') = Ret None \<and>
   ascii ''tabletmeta_0'' \<in>
     set (visited (traverse_header_func (\<lambda>tablet_id schema_hash value acc.
                     (True, acc @ [(tablet_id, schema_hash)])))
            (scan_prefix HEADER_PREFIX (kv_data corrupt_header_store)) []) \<and>
   traverse_headers corrupt_header_store
     (\<lambda>tablet_id schema_hash value acc. (True, acc @ [(tablet_id, schema_hash)])) [] =
     Ret (OK, [(1, 2)]) \<and>
   decode_meta_pending_rowset_key (encode_meta_pending_rowset_key 1 3 @ [0]) = None \<and>
   encode_meta_pending_rowset_key 1 3 @ [0] \<in>
     set (visited (pending_rowset_visitor (\<lambda>version value acc. (True, acc @ [version])))
            (scan_prefix (TABLET_META_PENDING_ROWSET_PREFIX @ be64 1)
               (kv_data corrupt_key_store)) []) \<and>
   pending_rowset_iterate corrupt_key_store 1 (\<lambda>version value acc. (True, acc @ [version])) [] =
     Ret (OK, [3])"
proof -
  have d: "decode_tablet_meta_key (ascii ''tabletmeta_0'') = Ret None"
    by (simp add: decode_tablet_meta_key_def HEADER_PREFIX_def ascii_def)
  have e: "decode_tablet_meta_key (encode_tablet_meta_key 1 2) = Ret (Some (1, 2))"
    by (rule decode_encode_tablet_meta_key)
  have p: "has_prefix HEADER_PREFIX (ascii ''tabletmeta_0'')"
    "has_prefix HEADER_PREFIX (encode_tablet_meta_key 1 2)"
    by (simp_all add: has_prefix_def encode_tablet_meta_key_def HEADER_PREFIX_def ascii_def)
  have s: "scan_prefix HEADER_PREFIX (kv_data corrupt_header_store) =
      [(ascii ''tabletmeta_0'', [1]), (encode_tablet_meta_key 1 2, [1])]"
    using p by (simp add: corrupt_header_store_def store_of_def scan_prefix_def)
  have v: "ascii ''tabletmeta_0'' \<in>
     set (visited (traverse_header_func (\<lambda>tablet_id schema_hash value acc.
                     (True, acc @ [(tablet_id, schema_hash)])))
            (scan_prefix HEADER_PREFIX (kv_data corrupt_header_store)) [])"
    by (simp add: s)
  have t: "traverse_headers corrupt_header_store
     (\<lambda>tablet_id schema_hash value acc. (True, acc @ [(tablet_id, schema_hash)])) [] =
     Ret (OK, [(1, 2)])"
    by (simp add: traverse_headers_def iterate_def s traverse_header_func_def d e)
      (simp add: corrupt_header_store_def store_of_def)
  have d': "decode_meta_pending_rowset_key (encode_meta_pending_rowset_key 1 3 @ [0]) = None"
    by (simp add: decode_meta_pending_rowset_key_def encode_meta_pending_rowset_key_def)
  have m': "encode_meta_pending_rowset_key 1 3 @ [0] \<in>
      set (visited (pending_rowset_visitor (\<lambda>version value acc. (True, acc @ [version])))
        (scan_prefix (TABLET_META_PENDING_ROWSET_PREFIX @ be64 1) (kv_data corrupt_key_store)) [])"
    by (simp only: corrupt_pending_visited) simp
  have i: "pending_rowset_iterate corrupt_key_store 1
      (\<lambda>version value acc. (True, acc @ [version])) [] = Ret (OK, [3])"
    by (simp add: pending_rowset_iterate_def iterate_def corrupt_key_store_def store_of_def
        scan_prefix_def has_prefix_def pending_rowset_visitor_def
        decode_meta_pending_rowset_key_def load_be64_def example_key_simps)
  from d v t d' m' i show ?thesis by (intro conjI)
qed

section \<open>Removing a tablet\<close>

lemma has_prefixE:
  assumes "has_prefix p k"
  obtains rest where "k = p @ rest"
  using assms append_take_drop_id [of "length p" k] unfolding has_prefix_def by metis

lemma has_prefix_append [simp]: "has_prefix p (p @ rest)"
  by (simp add: has_prefix_def)

lemma decode_under_scan_prefix:
  assumes "has_prefix (header_scan_prefix t) k"
  shows "decode_tablet_meta_key k = Ret None \<or>
         (\<exists>h. decode_tablet_meta_key k = Ret (Some (t, h)))"
proof -
  from assms obtain rest where k: "k = HEADER_PREFIX @ dec_int (sint t) @ 95 # rest"
    by (auto elim: has_prefixE simp: header_scan_prefix_def)
  have l: "\<not> length k \<le> length HEADER_PREFIX + 1"
    using length_dec_int [of "sint t"] by (simp add: k)
  have tk: "take (length HEADER_PREFIX) k = HEADER_PREFIX"
    and dr: "drop (length HEADER_PREFIX) k = dec_int (sint t) @ 95 # rest"
    by (simp_all add: k)
  show ?thesis
    unfolding decode_tablet_meta_key_def
    by (simp only: l tk dr if_False Let_def)
      (simp add: split_at_underscore dec_int_no_underscore split: option.splits)
qed

lemma apply_deletes:
  "foldl apply_op data (map (\<lambda>(k, v). Delete k) xs) =
     filter (\<lambda>(k, v). k \<notin> fst ` set xs) data"
proof (induction xs arbitrary: data)
  case Nil
  show ?case by simp
next
  case (Cons kv r)
  obtain k v where kv: "kv = (k, v)" by (cases kv)
  have "foldl apply_op data (map (\<lambda>(k, v). Delete k) (kv # r)) =
      filter (\<lambda>(k', v'). k' \<notin> fst ` set r) (kv_delete k data)"
    by (simp add: kv Cons.IH)
  also have "\<dots> = filter (\<lambda>(k', v'). k' \<notin> fst ` set (kv # r)) data"
    by (auto simp: kv kv_delete_def intro: filter_cong)
  finally show ?case .
qed

lemma delete_scanned_prefix:
  "filter (\<lambda>(k, v). k \<notin> fst ` set (scan_prefix p data)) data =
     filter (\<lambda>(k, v). \<not> has_prefix p k) data"
  by (rule filter_cong) (auto simp: scan_prefix_def image_iff)

text \<open>
  The scan of \<open>remove\<close> over the keys under the header prefix of the tablet: it stages
  the delete of each key up to the first one that does not decode, and \<open>is_primary\<close>
  ends as the last header value among them that parses says (as it started when
  none parses).
\<close>

lemma remove_visit_headers:
  assumes "\<forall>(k, v) \<in> set xs. has_prefix (header_scan_prefix t) k"
  shows "visit (remove_traverse_tabletmeta_func pb t) xs (batch, is_primary) =
         Ret (batch @ map (\<lambda>(k, v). Delete k)
                        (takeWhile (\<lambda>(k, v). decode_tablet_meta_key k \<noteq> Ret None) xs),
              foldl (\<lambda>ip (k, v). case parse_meta pb v of
                                    None \<Rightarrow> ip
                                  | Some m \<Rightarrow> schema_keys_type m = PRIMARY_KEYS)
                is_primary
                (takeWhile (\<lambda>(k, v). decode_tablet_meta_key k \<noteq> Ret None) xs))"
  using assms
proof (induction xs arbitrary: batch is_primary)
  case Nil
  show ?case by simp
next
  case (Cons kv r)
  obtain k v where kv: "kv = (k, v)" by (cases kv)
  from Cons.prems kv have p: "has_prefix (header_scan_prefix t) k" by auto
  show ?case
  proof (cases "decode_tablet_meta_key k = Ret None")
    case True
    then have "remove_traverse_tabletmeta_func pb t k v (batch, is_primary) =
        Ret (False, (batch, is_primary))"
      by (simp add: remove_traverse_tabletmeta_func_def)
    with True kv show ?thesis by simp
  next
    case False
    with decode_under_scan_prefix [OF p] obtain h where
      h: "decode_tablet_meta_key k = Ret (Some (t, h))" by auto
    have f: "remove_traverse_tabletmeta_func pb t k v (batch, is_primary) =
        Ret (True, (batch @ [Delete k],
                    case parse_meta pb v of
                      None \<Rightarrow> is_primary
                    | Some m \<Rightarrow> schema_keys_type m = PRIMARY_KEYS))"
      by (simp add: remove_traverse_tabletmeta_func_def h batch_Delete_def split: option.splits)
    from Cons.prems have "\<forall>(k, v) \<in> set r. has_prefix (header_scan_prefix t) k"
      by simp
    from Cons.IH [OF this, of "batch @ [Delete k]"] f False kv show ?thesis by simp
  qed
qed

lemma last_parsed_header:
  "foldl (\<lambda>ip (k, v). case parse_meta pb v of
                         None \<Rightarrow> ip
                       | Some m \<Rightarrow> schema_keys_type m = PRIMARY_KEYS) ip xs =
   (if filter (\<lambda>(k, v). parse_meta pb v \<noteq> None) xs = [] then ip
    else schema_keys_type
           (the (parse_meta pb (snd (last (filter (\<lambda>(k, v). parse_meta pb v \<noteq> None) xs))))) =
         PRIMARY_KEYS)"
proof (induction xs rule: rev_induct)
  case Nil
  show ?case by simp
next
  case (snoc kv r)
  obtain k v where kv: "kv = (k, v)" by (cases kv)
  show ?case
  proof (cases "parse_meta pb v")
    case None
    with snoc kv show ?thesis by simp
  next
    case (Some m)
    with kv show ?thesis by simp
  qed
qed

lemma remove_scan_headers_only:
  assumes "scan_prefix (header_scan_prefix tablet_id) (kv_data store) = pre @ (k, v) # rest"
    and "parse_meta pb v = None"
    and "\<forall>(k, v) \<in> set pre. decode_tablet_meta_key k \<noteq> Ret None"
    and "decode_tablet_meta_key k \<noteq> Ret None"
    and "filter (\<lambda>(k, v). parse_meta pb v \<noteq> None)
           (pre @ takeWhile (\<lambda>(k, v). decode_tablet_meta_key k \<noteq> Ret None) rest) \<noteq> [] \<Longrightarrow>
         schema_keys_type
           (the (parse_meta pb (snd (last (filter (\<lambda>(k, v). parse_meta pb v \<noteq> None)
              (pre @ takeWhile (\<lambda>(k, v). decode_tablet_meta_key k \<noteq> Ret None) rest)))))) \<noteq>
         PRIMARY_KEYS"
  shows "visit (remove_traverse_tabletmeta_func pb tablet_id)
           (scan_prefix (header_scan_prefix tablet_id) (kv_data store)) ([], False) =
         Ret (map (\<lambda>(k, v). Delete k)
                (pre @ (k, v) #
                 takeWhile (\<lambda>(k, v). decode_tablet_meta_key k \<noteq> Ret None) rest),
              False)"
proof -
  let ?xs = "scan_prefix (header_scan_prefix tablet_id) (kv_data store)"
  let ?dec = "\<lambda>(k, v). decode_tablet_meta_key k \<noteq> Ret None"
  let ?step = "\<lambda>ip (k, v). case parse_meta pb v of
                              None \<Rightarrow> ip
                            | Some m \<Rightarrow> schema_keys_type m = PRIMARY_KEYS"
  have hp: "\<forall>(k, v) \<in> set ?xs. has_prefix (header_scan_prefix tablet_id) k"
    by (simp add: scan_prefix_def)
  have tw: "takeWhile ?dec ?xs = pre @ (k, v) # takeWhile ?dec rest"
    using assms(3,4) by (simp add: assms(1) takeWhile_append2)
  have "foldl ?step False (pre @ (k, v) # takeWhile ?dec rest) =
      foldl ?step False (pre @ takeWhile ?dec rest)"
    by (simp add: assms(2))
  also have "\<dots> = False"
    using assms(5) by (simp only: last_parsed_header) (simp split: if_splits)
  finally have ip: "foldl ?step False (takeWhile ?dec ?xs) = False"
    by (simp only: tw)
  have "visit (remove_traverse_tabletmeta_func pb tablet_id) ?xs ([], False) =
      Ret (map (\<lambda>(k, v). Delete k) (takeWhile ?dec ?xs), False)"
    using remove_visit_headers [OF hp, of pb "[]" False] by (simp only: ip append_Nil)
  then show ?thesis by (simp only: tw)
qed

lemma has_prefix_appendD: "has_prefix (p @ q) k \<Longrightarrow> has_prefix p k"
proof -
  assume a: "has_prefix (p @ q) k"
  have "take (length p) k = take (length p) (take (length (p @ q)) k)"
    by (simp add: min_def)
  also have "\<dots> = p" using a by (simp add: has_prefix_def)
  finally show ?thesis by (simp add: has_prefix_def)
qed

lemma header_key_has_scan_prefix:
  "has_prefix (header_scan_prefix t) (encode_tablet_meta_key t h)"
  by (simp add: header_scan_prefix_def encode_tablet_meta_key_def has_prefix_def)

lemma other_keys_no_header_prefix:
  "\<not> has_prefix (header_scan_prefix t) (encode_meta_log_key tid logid)"
  "\<not> has_prefix (header_scan_prefix t) (encode_meta_rowset_key tid rowsetid)"
  "\<not> has_prefix (header_scan_prefix t) (encode_meta_pending_rowset_key tid version)"
  "\<not> has_prefix (header_scan_prefix t) (encode_del_vector_key tid segment_id version)"
proof -
  have "\<not> has_prefix HEADER_PREFIX (encode_meta_log_key tid logid)"
    "\<not> has_prefix HEADER_PREFIX (encode_meta_rowset_key tid rowsetid)"
    "\<not> has_prefix HEADER_PREFIX (encode_meta_pending_rowset_key tid version)"
    "\<not> has_prefix HEADER_PREFIX (encode_del_vector_key tid segment_id version)"
    by (simp_all add: has_prefix_def HEADER_PREFIX_def encode_meta_log_key_def
        encode_meta_rowset_key_def encode_meta_pending_rowset_key_def encode_del_vector_key_def
        TABLET_META_LOG_PREFIX_def TABLET_META_ROWSET_PREFIX_def
        TABLET_META_PENDING_ROWSET_PREFIX_def TABLET_DELVEC_PREFIX_def ascii_def)
  then show "\<not> has_prefix (header_scan_prefix t) (encode_meta_log_key tid logid)"
    "\<not> has_prefix (header_scan_prefix t) (encode_meta_rowset_key tid rowsetid)"
    "\<not> has_prefix (header_scan_prefix t) (encode_meta_pending_rowset_key tid version)"
    "\<not> has_prefix (header_scan_prefix t) (encode_del_vector_key tid segment_id version)"
    unfolding header_scan_prefix_def by (blast dest: has_prefix_appendD)+
qed

text \<open>
  Claim C10, as amended. On a store that can be read and written, let a header of the
  tablet be stored with a value that fails to parse as a tablet-meta descriptor, let
  every key under the header prefix of the tablet that sorts before that header decode,
  and let the last header value that parses, among those of the other keys the scan
  visits (the keys under the prefix up to the first one that does not decode), not be
  that of a primary-key tablet, if there is one. Then \<open>remove\<close> returns \<open>OK\<close>; the batch it
  commits holds the deletes of the header keys it visits, this header among them, and
  nothing else; the header is no longer stored; every key outside the header prefix of
  the tablet is left as it was, so every log, rowset, pending-rowset and delete-vector
  record (of this and of every other tablet) is still in the store.
\<close>

theorem remove_with_unparsable_header:
  assumes "\<not> read_fails store" and "\<not> write_fails store"
    and "scan_prefix (header_scan_prefix tablet_id) (kv_data store) =
           pre @ (encode_tablet_meta_key tablet_id schema_hash, value) # rest"
    and "parse_meta pb value = None"
    and "\<forall>(k, v) \<in> set pre. decode_tablet_meta_key k \<noteq> Ret None"
    and "filter (\<lambda>(k, v). parse_meta pb v \<noteq> None)
           (pre @ takeWhile (\<lambda>(k, v). decode_tablet_meta_key k \<noteq> Ret None) rest) \<noteq> [] \<Longrightarrow>
         schema_keys_type
           (the (parse_meta pb (snd (last (filter (\<lambda>(k, v). parse_meta pb v \<noteq> None)
              (pre @ takeWhile (\<lambda>(k, v). decode_tablet_meta_key k \<noteq> Ret None) rest)))))) \<noteq>
         PRIMARY_KEYS"
  shows "\<exists>store'.
           remove pb store tablet_id = Ret (OK, store') \<and>
           kv_data store' =
             foldl apply_op (kv_data store)
               (map (\<lambda>(k, v). Delete k)
                  (pre @ (encode_tablet_meta_key tablet_id schema_hash, value) #
                   takeWhile (\<lambda>(k, v). decode_tablet_meta_key k \<noteq> Ret None) rest)) \<and>
           kv_get store' (encode_tablet_meta_key tablet_id schema_hash) = None \<and>
           (\<forall>k. \<not> has_prefix (header_scan_prefix tablet_id) k \<longrightarrow>
                kv_get store' k = kv_get store k) \<and>
           (\<forall>tid logid. kv_get store' (encode_meta_log_key tid logid) =
              kv_get store (encode_meta_log_key tid logid)) \<and>
           (\<forall>tid rowsetid. kv_get store' (encode_meta_rowset_key tid rowsetid) =
              kv_get store (encode_meta_rowset_key tid rowsetid)) \<and>
           (\<forall>tid version. kv_get store' (encode_meta_pending_rowset_key tid version) =
              kv_get store (encode_meta_pending_rowset_key tid version)) \<and>
           (\<forall>tid segment_id version.
              kv_get store' (encode_del_vector_key tid segment_id version) =
              kv_get store (encode_del_vector_key tid segment_id version))"
proof -
  let ?p = "header_scan_prefix tablet_id"
  let ?hk = "encode_tablet_meta_key tablet_id schema_hash"
  let ?dec = "\<lambda>(k, v). decode_tablet_meta_key k \<noteq> Ret None"
  let ?xs = "scan_prefix ?p (kv_data store)"
  let ?vl = "pre @ (?hk, value) # takeWhile ?dec rest"
  let ?store' = "store\<lparr>kv_data := foldl apply_op (kv_data store) (map (\<lambda>(k, v). Delete k) ?vl)\<rparr>"
  have dh: "decode_tablet_meta_key ?hk \<noteq> Ret None"
    by (simp add: decode_encode_tablet_meta_key)
  have v: "visit (remove_traverse_tabletmeta_func pb tablet_id) ?xs ([], False) =
      Ret (map (\<lambda>(k, v). Delete k) ?vl, False)"
    using assms(3-5) dh assms(6) by (rule remove_scan_headers_only)
  have r: "remove pb store tablet_id = Ret (OK, ?store')"
  proof -
    define batch where "batch = map (\<lambda>(k, v). Delete k) ?vl"
    have "visit (remove_traverse_tabletmeta_func pb tablet_id) ?xs ([], False) = Ret (batch, False)"
      using v by (simp only: batch_def)
    then have "remove pb store tablet_id =
        Ret (OK, store\<lparr>kv_data := foldl apply_op (kv_data store) batch\<rparr>)"
      using assms(1,2) by (simp add: remove_def iterate_def write_batch_def)
    then show ?thesis by (simp only: batch_def)
  qed
  have b: "kv_data ?store' = foldl apply_op (kv_data store) (map (\<lambda>(k, v). Delete k) ?vl)"
    by simp
  have sub: "set ?vl \<subseteq> set ?xs"
    unfolding assms(3) by (auto dest: set_takeWhileD)
  have pre: "has_prefix ?p k" if "k \<in> fst ` set ?vl" for k
  proof -
    from that obtain kv where kv: "kv \<in> set ?vl" and k: "k = fst kv" by (rule imageE)
    from kv sub have "kv \<in> set ?xs" by blast
    then show ?thesis by (auto simp: scan_prefix_def k)
  qed
  have g: "kv_get ?store' k = (if k \<notin> fst ` set ?vl then kv_get store k else None)" for k
  proof -
    define vl where "vl = ?vl"
    have "kv_get (store\<lparr>kv_data := foldl apply_op (kv_data store) (map (\<lambda>(k, v). Delete k) vl)\<rparr>) k =
        (if k \<notin> fst ` set vl then kv_get store k else None)"
      by (simp add: kv_get_def apply_deletes map_of_filter_key)
    then show ?thesis by (simp only: vl_def)
  qed
  have h: "kv_get ?store' ?hk = None"
    by (subst g) (simp add: image_iff)
  have f: "kv_get ?store' k = kv_get store k" if "\<not> has_prefix ?p k" for k
  proof -
    from that pre [of k] have "k \<notin> fst ` set ?vl" by blast
    then show ?thesis by (subst g) (simp only: if_True simp_thms)
  qed
  have o: "kv_get ?store' (encode_meta_log_key tid logid) =
        kv_get store (encode_meta_log_key tid logid)"
      "kv_get ?store' (encode_meta_rowset_key tid rowsetid) =
        kv_get store (encode_meta_rowset_key tid rowsetid)"
      "kv_get ?store' (encode_meta_pending_rowset_key tid version) =
        kv_get store (encode_meta_pending_rowset_key tid version)"
      "kv_get ?store' (encode_del_vector_key tid segment_id version) =
        kv_get store (encode_del_vector_key tid segment_id version)"
    for tid logid rowsetid version segment_id
    by (rule f, rule other_keys_no_header_prefix)+
  have f': "\<forall>k. \<not> has_prefix ?p k \<longrightarrow> kv_get ?store' k = kv_get store k"
    using f by blast
  show ?thesis
    by (rule exI [of _ ?store']) (intro conjI allI r b h f' o)
qed

lemma unparsable_header_scan:
  "scan_prefix (header_scan_prefix 1) (kv_data unparsable_header_store) =
     [(encode_tablet_meta_key 1 2, [1]), (encode_tablet_meta_key 1 3, [0])] @
     (encode_tablet_meta_key 1 4, []) # [(ascii ''tabletmeta_1_x'', [1])]"
  by (simp add: scan_prefix_def unparsable_header_store_def store_of_def has_prefix_def
      header_scan_prefix_def example_key_simps)

theorem remove_with_unparsable_header_witness:
  "\<exists>store'.
     remove example_codec unparsable_header_store 1 = Ret (OK, store') \<and>
     kv_get unparsable_header_store (encode_tablet_meta_key 1 4) = Some [] \<and>
     kv_get store' (encode_tablet_meta_key 1 4) = None \<and>
     kv_get store' (encode_meta_log_key 1 0) = Some [9] \<and>
     kv_get store' (encode_meta_rowset_key 1 0) = Some [0, 0, 0, 0] \<and>
     kv_get store' (encode_meta_pending_rowset_key 1 6) = Some [0, 0, 0, 1] \<and>
     kv_get store' (encode_del_vector_key 1 0 5) = Some [5]"
proof -
  have f: "\<not> read_fails unparsable_header_store" "\<not> write_fails unparsable_header_store"
    by (simp_all add: unparsable_header_store_def store_of_def)
  have p: "parse_meta example_codec [] = None"
    by (simp add: example_codec_def)
  have d: "\<forall>(k, v) \<in> set [(encode_tablet_meta_key 1 2, [1 :: byte]),
      (encode_tablet_meta_key 1 3, [0])]. decode_tablet_meta_key k \<noteq> Ret None"
    by (simp add: decode_encode_tablet_meta_key)
  have x: "decode_tablet_meta_key (ascii ''tabletmeta_1_x'') = Ret None"
    by (simp add: decode_tablet_meta_key_def HEADER_PREFIX_def ascii_def safe_strto64_def
        safe_strto32_def parse_int_def is_digit_def)
  have n: "schema_keys_type
      (the (parse_meta example_codec (snd (last (filter (\<lambda>(k, v). parse_meta example_codec v \<noteq> None)
         ([(encode_tablet_meta_key 1 2, [1]), (encode_tablet_meta_key 1 3, [0])] @
          takeWhile (\<lambda>(k, v). decode_tablet_meta_key k \<noteq> Ret None)
            [(ascii ''tabletmeta_1_x'', [1])])))))) \<noteq> PRIMARY_KEYS"
    by (simp add: x example_codec_def)
  have g: "kv_get unparsable_header_store (encode_tablet_meta_key 1 4) = Some []"
    "kv_get unparsable_header_store (encode_meta_log_key 1 0) = Some [9]"
    "kv_get unparsable_header_store (encode_meta_rowset_key 1 0) = Some [0, 0, 0, 0]"
    "kv_get unparsable_header_store (encode_meta_pending_rowset_key 1 6) = Some [0, 0, 0, 1]"
    "kv_get unparsable_header_store (encode_del_vector_key 1 0 5) = Some [5]"
    by (simp_all add: kv_get_def unparsable_header_store_def store_of_def example_key_simps)
  from remove_with_unparsable_header [OF f unparsable_header_scan p d n] obtain store' where
    "remove example_codec unparsable_header_store 1 = Ret (OK, store')"
    "kv_get store' (encode_tablet_meta_key 1 4) = None"
    "kv_get store' (encode_meta_log_key 1 0) = kv_get unparsable_header_store (encode_meta_log_key 1 0)"
    "kv_get store' (encode_meta_rowset_key 1 0) =
       kv_get unparsable_header_store (encode_meta_rowset_key 1 0)"
    "kv_get store' (encode_meta_pending_rowset_key 1 6) =
       kv_get unparsable_header_store (encode_meta_pending_rowset_key 1 6)"
    "kv_get store' (encode_del_vector_key 1 0 5) =
       kv_get unparsable_header_store (encode_del_vector_key 1 0 5)"
    by blast
  with g show ?thesis by (intro exI [of _ store']) simp
qed

text \<open>
  The claim as stated fails in two ways. In the first store the tablet has two headers:
  the first parses as the header of a primary-key tablet, the second fails to parse.
  \<open>is_primary\<close> keeps the value the first header gave it, the cleanup is staged, and
  the log entry of the tablet is removed with the headers. In the second store the key
  \<open>tabletmeta_1_\<close>, which does not decode, sorts before the header whose value fails to
  parse: the scan stops there, the batch is empty and the header is still stored after
  the successful \<open>remove\<close>.
\<close>

theorem remove_unparsable_header_counterexample:
  "parse_meta example_codec [] = None \<and>
   kv_get primary_then_unparsable_store (encode_tablet_meta_key 1 3) = Some [] \<and>
   kv_get primary_then_unparsable_store (encode_meta_log_key 1 0) = Some [9] \<and>
   remove example_codec primary_then_unparsable_store 1 = Ret (OK, store_of []) \<and>
   kv_get undecodable_before_header_store (encode_tablet_meta_key 1 2) = Some [] \<and>
   remove example_codec undecodable_before_header_store 1 =
     Ret (OK, undecodable_before_header_store)"
proof -
  have p: "parse_meta example_codec [] = None"
    "parse_meta example_codec [1] = Some \<lparr>schema_keys_type = PRIMARY_KEYS, updates = None\<rparr>"
    by (simp_all add: example_codec_def)
  have g: "kv_get primary_then_unparsable_store (encode_tablet_meta_key 1 3) = Some []"
    "kv_get primary_then_unparsable_store (encode_meta_log_key 1 0) = Some [9]"
    "kv_get undecodable_before_header_store (encode_tablet_meta_key 1 2) = Some []"
    by (simp_all add: kv_get_def primary_then_unparsable_store_def
        undecodable_before_header_store_def store_of_def example_key_simps)
  have s1: "scan_prefix (header_scan_prefix 1) (kv_data primary_then_unparsable_store) =
      [(encode_tablet_meta_key 1 2, [1]), (encode_tablet_meta_key 1 3, [])]"
    by (simp add: scan_prefix_def primary_then_unparsable_store_def store_of_def has_prefix_def
        header_scan_prefix_def example_key_simps)
  have v1: "visit (remove_traverse_tabletmeta_func example_codec 1)
      (scan_prefix (header_scan_prefix 1) (kv_data primary_then_unparsable_store)) ([], False) =
      Ret ([Delete (encode_tablet_meta_key 1 2), Delete (encode_tablet_meta_key 1 3)], True)"
    by (simp add: s1 remove_traverse_tabletmeta_func_def decode_encode_tablet_meta_key
        batch_Delete_def p)
  have r1: "remove example_codec primary_then_unparsable_store 1 =
      Ret (write_batch primary_then_unparsable_store
            [Delete (encode_tablet_meta_key 1 2), Delete (encode_tablet_meta_key 1 3),
             DeleteRange (encode_meta_log_key 1 0) (encode_meta_log_key 1 UINT64_MAX),
             DeleteRange (encode_del_vector_key 1 0 INT64_MAX)
               (encode_del_vector_key 1 UINT32_MAX INT64_MAX),
             DeleteRange (encode_meta_rowset_key 1 0) (encode_meta_rowset_key 1 UINT32_MAX),
             DeleteRange (encode_meta_pending_rowset_key 1 0)
               (encode_meta_pending_rowset_key 1 INT64_MAX)])"
    by (simp add: remove_def iterate_def v1 clear_log_def clear_del_vector_def clear_rowset_def
        clear_pending_rowset_def batch_DeleteRange_def)
      (simp add: primary_then_unparsable_store_def store_of_def)
  have w1: "write_batch primary_then_unparsable_store
            [Delete (encode_tablet_meta_key 1 2), Delete (encode_tablet_meta_key 1 3),
             DeleteRange (encode_meta_log_key 1 0) (encode_meta_log_key 1 UINT64_MAX),
             DeleteRange (encode_del_vector_key 1 0 INT64_MAX)
               (encode_del_vector_key 1 UINT32_MAX INT64_MAX),
             DeleteRange (encode_meta_rowset_key 1 0) (encode_meta_rowset_key 1 UINT32_MAX),
             DeleteRange (encode_meta_pending_rowset_key 1 0)
               (encode_meta_pending_rowset_key 1 INT64_MAX)] = (OK, store_of [])"
    by (simp add: write_batch_def primary_then_unparsable_store_def store_of_def kv_delete_def
        kv_delete_range_def example_key_simps)
  have d2: "decode_tablet_meta_key (ascii ''tabletmeta_1_'') = Ret None"
    by (simp add: decode_tablet_meta_key_def HEADER_PREFIX_def ascii_def safe_strto64_def
        safe_strto32_def parse_int_def is_digit_def)
  have s2: "scan_prefix (header_scan_prefix 1) (kv_data undecodable_before_header_store) =
      [(ascii ''tabletmeta_1_'', [0]), (encode_tablet_meta_key 1 2, [])]"
    by (simp add: scan_prefix_def undecodable_before_header_store_def store_of_def has_prefix_def
        header_scan_prefix_def example_key_simps)
  have v2: "visit (remove_traverse_tabletmeta_func example_codec 1)
      (scan_prefix (header_scan_prefix 1) (kv_data undecodable_before_header_store)) ([], False) =
      Ret ([], False)"
    by (simp add: s2 remove_traverse_tabletmeta_func_def d2)
  have r2: "remove example_codec undecodable_before_header_store 1 =
      Ret (OK, undecodable_before_header_store)"
    by (simp add: remove_def iterate_def v2 write_batch_def)
      (simp add: undecodable_before_header_store_def store_of_def)
  from p(1) g r1 w1 r2 show ?thesis by simp
qed

subsection \<open>A primary-key tablet\<close>

lemma meta_rowset_key_less:
  "(encode_meta_rowset_key t r < encode_meta_rowset_key t' r') = (t < t' \<or> t = t' \<and> r < r')"
  by (simp add: encode_meta_rowset_key_def)

lemma meta_rowset_key_le:
  "(encode_meta_rowset_key t r \<le> encode_meta_rowset_key t' r') = (t < t' \<or> t = t' \<and> r \<le> r')"
  by (simp add: encode_meta_rowset_key_def)

lemma meta_pending_rowset_key_less:
  "(encode_meta_pending_rowset_key t v < encode_meta_pending_rowset_key t' v') =
     (t < t' \<or> t = t' \<and> v < v')"
  by (simp add: encode_meta_pending_rowset_key_def)

lemma meta_pending_rowset_key_le:
  "(encode_meta_pending_rowset_key t v \<le> encode_meta_pending_rowset_key t' v') =
     (t < t' \<or> t = t' \<and> v \<le> v')"
  by (simp add: encode_meta_pending_rowset_key_def)

lemma range_has_prefix:
  fixes p :: bytes
  shows "p @ a \<le> k \<Longrightarrow> k < p @ b \<Longrightarrow> has_prefix p k"
  unfolding has_prefix_def by (rule range_common_prefix)

lemma namespace_prefixes:
  "has_prefix TABLET_META_LOG_PREFIX (encode_meta_log_key t l)"
  "has_prefix TABLET_META_ROWSET_PREFIX (encode_meta_rowset_key t r)"
  "has_prefix TABLET_META_PENDING_ROWSET_PREFIX (encode_meta_pending_rowset_key t v)"
  "has_prefix TABLET_DELVEC_PREFIX (encode_del_vector_key t s v)"
  by (simp_all add: encode_meta_log_key_def encode_meta_rowset_key_def
      encode_meta_pending_rowset_key_def encode_del_vector_key_def)

lemma namespaces_disjoint:
  "\<not> has_prefix TABLET_META_LOG_PREFIX (encode_meta_rowset_key t r)"
  "\<not> has_prefix TABLET_META_LOG_PREFIX (encode_meta_pending_rowset_key t v)"
  "\<not> has_prefix TABLET_META_LOG_PREFIX (encode_del_vector_key t s v)"
  "\<not> has_prefix TABLET_META_LOG_PREFIX (encode_tablet_meta_key t h)"
  "\<not> has_prefix TABLET_META_ROWSET_PREFIX (encode_meta_log_key t l)"
  "\<not> has_prefix TABLET_META_ROWSET_PREFIX (encode_meta_pending_rowset_key t v)"
  "\<not> has_prefix TABLET_META_ROWSET_PREFIX (encode_del_vector_key t s v)"
  "\<not> has_prefix TABLET_META_ROWSET_PREFIX (encode_tablet_meta_key t h)"
  "\<not> has_prefix TABLET_META_PENDING_ROWSET_PREFIX (encode_meta_log_key t l)"
  "\<not> has_prefix TABLET_META_PENDING_ROWSET_PREFIX (encode_meta_rowset_key t r)"
  "\<not> has_prefix TABLET_META_PENDING_ROWSET_PREFIX (encode_del_vector_key t s v)"
  "\<not> has_prefix TABLET_META_PENDING_ROWSET_PREFIX (encode_tablet_meta_key t h)"
  "\<not> has_prefix TABLET_DELVEC_PREFIX (encode_meta_log_key t l)"
  "\<not> has_prefix TABLET_DELVEC_PREFIX (encode_meta_rowset_key t r)"
  "\<not> has_prefix TABLET_DELVEC_PREFIX (encode_meta_pending_rowset_key t v)"
  "\<not> has_prefix TABLET_DELVEC_PREFIX (encode_tablet_meta_key t h)"
  by (simp_all add: has_prefix_def encode_meta_log_key_def encode_meta_rowset_key_def
      encode_meta_pending_rowset_key_def encode_del_vector_key_def encode_tablet_meta_key_def
      HEADER_PREFIX_def TABLET_META_LOG_PREFIX_def TABLET_META_ROWSET_PREFIX_def
      TABLET_META_PENDING_ROWSET_PREFIX_def TABLET_DELVEC_PREFIX_def ascii_def)

lemma in_cleared_ranges_namespace:
  assumes "in_cleared_ranges t k"
  shows "has_prefix TABLET_META_LOG_PREFIX k \<or> has_prefix TABLET_DELVEC_PREFIX k \<or>
         has_prefix TABLET_META_ROWSET_PREFIX k \<or> has_prefix TABLET_META_PENDING_ROWSET_PREFIX k"
  using assms
  unfolding in_cleared_ranges_def encode_meta_log_key_def encode_del_vector_key_def
    encode_meta_rowset_key_def encode_meta_pending_rowset_key_def
  by (blast intro: range_has_prefix)

lemma in_cleared_ranges_log:
  "in_cleared_ranges t (encode_meta_log_key t' l) = (t' = t \<and> l < UINT64_MAX)"
proof -
  have "\<not> has_prefix TABLET_DELVEC_PREFIX (encode_meta_log_key t' l)"
    "\<not> has_prefix TABLET_META_ROWSET_PREFIX (encode_meta_log_key t' l)"
    "\<not> has_prefix TABLET_META_PENDING_ROWSET_PREFIX (encode_meta_log_key t' l)"
    by (rule namespaces_disjoint)+
  then have "in_cleared_ranges t (encode_meta_log_key t' l) =
      (encode_meta_log_key t 0 \<le> encode_meta_log_key t' l \<and>
       encode_meta_log_key t' l < encode_meta_log_key t UINT64_MAX)"
    unfolding in_cleared_ranges_def encode_del_vector_key_def
      encode_meta_rowset_key_def encode_meta_pending_rowset_key_def
    by (blast dest: range_has_prefix)
  also have "\<dots> = (t' = t \<and> l < UINT64_MAX)"
    by (auto simp: meta_log_key_less meta_log_key_le)
  finally show ?thesis .
qed

lemma in_cleared_ranges_rowset:
  "in_cleared_ranges t (encode_meta_rowset_key t' r) = (t' = t \<and> r < UINT32_MAX)"
proof -
  have "\<not> has_prefix TABLET_DELVEC_PREFIX (encode_meta_rowset_key t' r)"
    "\<not> has_prefix TABLET_META_LOG_PREFIX (encode_meta_rowset_key t' r)"
    "\<not> has_prefix TABLET_META_PENDING_ROWSET_PREFIX (encode_meta_rowset_key t' r)"
    by (rule namespaces_disjoint)+
  then have "in_cleared_ranges t (encode_meta_rowset_key t' r) =
      (encode_meta_rowset_key t 0 \<le> encode_meta_rowset_key t' r \<and>
       encode_meta_rowset_key t' r < encode_meta_rowset_key t UINT32_MAX)"
    unfolding in_cleared_ranges_def encode_del_vector_key_def
      encode_meta_log_key_def encode_meta_pending_rowset_key_def
    by (blast dest: range_has_prefix)
  also have "\<dots> = (t' = t \<and> r < UINT32_MAX)"
    by (auto simp: meta_rowset_key_less meta_rowset_key_le)
  finally show ?thesis .
qed

lemma in_cleared_ranges_pending:
  "in_cleared_ranges t (encode_meta_pending_rowset_key t' v) = (t' = t \<and> v < INT64_MAX)"
proof -
  have "\<not> has_prefix TABLET_DELVEC_PREFIX (encode_meta_pending_rowset_key t' v)"
    "\<not> has_prefix TABLET_META_LOG_PREFIX (encode_meta_pending_rowset_key t' v)"
    "\<not> has_prefix TABLET_META_ROWSET_PREFIX (encode_meta_pending_rowset_key t' v)"
    by (rule namespaces_disjoint)+
  then have "in_cleared_ranges t (encode_meta_pending_rowset_key t' v) =
      (encode_meta_pending_rowset_key t 0 \<le> encode_meta_pending_rowset_key t' v \<and>
       encode_meta_pending_rowset_key t' v < encode_meta_pending_rowset_key t INT64_MAX)"
    unfolding in_cleared_ranges_def encode_del_vector_key_def
      encode_meta_log_key_def encode_meta_rowset_key_def
    by (blast dest: range_has_prefix)
  also have "\<dots> = (t' = t \<and> v < INT64_MAX)"
    by (auto simp: meta_pending_rowset_key_less meta_pending_rowset_key_le)
  finally show ?thesis .
qed

lemma sint_INT64_MAX: "sint INT64_MAX = 2 ^ 63 - 1"
  by (simp add: INT64_MAX_def)

lemma in_cleared_ranges_del_vector:
  "in_cleared_ranges t (encode_del_vector_key t' s v) = (t' = t \<and> s < UINT32_MAX)"
proof -
  have "\<not> has_prefix TABLET_META_PENDING_ROWSET_PREFIX (encode_del_vector_key t' s v)"
    "\<not> has_prefix TABLET_META_LOG_PREFIX (encode_del_vector_key t' s v)"
    "\<not> has_prefix TABLET_META_ROWSET_PREFIX (encode_del_vector_key t' s v)"
    by (rule namespaces_disjoint)+
  then have "in_cleared_ranges t (encode_del_vector_key t' s v) =
      (encode_del_vector_key t 0 INT64_MAX \<le> encode_del_vector_key t' s v \<and>
       encode_del_vector_key t' s v < encode_del_vector_key t UINT32_MAX INT64_MAX)"
    unfolding in_cleared_ranges_def encode_meta_pending_rowset_key_def
      encode_meta_log_key_def encode_meta_rowset_key_def
    by (blast dest: range_has_prefix)
  also have "\<dots> = (t' = t \<and> s < UINT32_MAX)"
  proof -
    have "sint v \<le> 2 ^ 63 - 1" using sint_lt [of v] by simp
    then show ?thesis
      by (auto simp: del_vector_key_less del_vector_key_le sint_INT64_MAX UINT32_MAX_def
          word_gt_0)
  qed
  finally show ?thesis .
qed

lemma remove_visit_primary:
  assumes "\<forall>(k, v) \<in> set xs. has_prefix (header_scan_prefix t) k \<and>
             decode_tablet_meta_key k \<noteq> Ret None \<and>
             (\<exists>m. parse_meta pb v = Some m \<and> schema_keys_type m = PRIMARY_KEYS)"
  shows "visit (remove_traverse_tabletmeta_func pb t) xs (batch, is_primary) =
         Ret (batch @ map (\<lambda>(k, v). Delete k) xs, is_primary \<or> xs \<noteq> [])"
  using assms
proof (induction xs arbitrary: batch is_primary)
  case Nil
  show ?case by simp
next
  case (Cons kv r)
  obtain k v where kv: "kv = (k, v)" by (cases kv)
  from Cons.prems kv have p: "has_prefix (header_scan_prefix t) k"
    and d: "decode_tablet_meta_key k \<noteq> Ret None"
    and n: "\<exists>m. parse_meta pb v = Some m \<and> schema_keys_type m = PRIMARY_KEYS"
    by auto
  from decode_under_scan_prefix [OF p] d obtain h where
    h: "decode_tablet_meta_key k = Ret (Some (t, h))" by auto
  from n obtain m where m: "parse_meta pb v = Some m" "schema_keys_type m = PRIMARY_KEYS"
    by auto
  have f: "remove_traverse_tabletmeta_func pb t k v (batch, is_primary) =
      Ret (True, (batch @ [Delete k], True))"
    by (simp add: remove_traverse_tabletmeta_func_def h m batch_Delete_def)
  from Cons.prems have "\<forall>(k, v) \<in> set r. has_prefix (header_scan_prefix t) k \<and>
             decode_tablet_meta_key k \<noteq> Ret None \<and>
             (\<exists>m. parse_meta pb v = Some m \<and> schema_keys_type m = PRIMARY_KEYS)"
    by simp
  from Cons.IH [OF this, of "batch @ [Delete k]" True] f kv show ?case by simp
qed

lemma remove_primary_result:
  assumes "\<not> read_fails store" and "\<not> write_fails store"
    and "scan_prefix (header_scan_prefix tablet_id) (kv_data store) \<noteq> []"
    and "\<forall>(k, v) \<in> set (scan_prefix (header_scan_prefix tablet_id) (kv_data store)).
           decode_tablet_meta_key k \<noteq> Ret None \<and>
           (\<exists>m. parse_meta pb v = Some m \<and> schema_keys_type m = PRIMARY_KEYS)"
  shows "remove pb store tablet_id =
         Ret (OK, store\<lparr>kv_data :=
                filter (\<lambda>(k, v). \<not> has_prefix (header_scan_prefix tablet_id) k \<and>
                                 \<not> in_cleared_ranges tablet_id k) (kv_data store)\<rparr>)"
proof -
  let ?xs = "scan_prefix (header_scan_prefix tablet_id) (kv_data store)"
  have "\<forall>(k, v) \<in> set ?xs. has_prefix (header_scan_prefix tablet_id) k \<and>
           decode_tablet_meta_key k \<noteq> Ret None \<and>
           (\<exists>m. parse_meta pb v = Some m \<and> schema_keys_type m = PRIMARY_KEYS)"
    using assms(4) by (auto simp: scan_prefix_def)
  then have "visit (remove_traverse_tabletmeta_func pb tablet_id) ?xs ([], False) =
      Ret ([] @ map (\<lambda>(k, v). Delete k) ?xs, False \<or> ?xs \<noteq> [])"
    by (rule remove_visit_primary)
  with assms(3) have v: "visit (remove_traverse_tabletmeta_func pb tablet_id) ?xs ([], False) =
      Ret (map (\<lambda>(k, v). Delete k) ?xs, True)"
    by simp
  have e: "kv_delete_range (encode_meta_pending_rowset_key tablet_id 0)
        (encode_meta_pending_rowset_key tablet_id INT64_MAX)
       (kv_delete_range (encode_meta_rowset_key tablet_id 0)
          (encode_meta_rowset_key tablet_id UINT32_MAX)
         (kv_delete_range (encode_del_vector_key tablet_id 0 INT64_MAX)
            (encode_del_vector_key tablet_id UINT32_MAX INT64_MAX)
           (kv_delete_range (encode_meta_log_key tablet_id 0)
              (encode_meta_log_key tablet_id UINT64_MAX)
             (filter (\<lambda>(k, v). \<not> has_prefix (header_scan_prefix tablet_id) k)
                (kv_data store))))) =
      filter (\<lambda>(k, v). \<not> has_prefix (header_scan_prefix tablet_id) k \<and>
                       \<not> in_cleared_ranges tablet_id k) (kv_data store)"
    unfolding kv_delete_range_def filter_filter
    by (rule filter_cong) (auto simp: in_cleared_ranges_def)
  show ?thesis
    using assms(1,2)
    by (simp add: remove_def iterate_def v write_batch_def clear_log_def clear_del_vector_def
        clear_rowset_def clear_pending_rowset_def batch_DeleteRange_def
        apply_deletes delete_scanned_prefix e)
qed

text \<open>
  What \<open>remove\<close> does for a primary-key tablet, in general. On a store that can be
  read and written, when the tablet has a header, every key under its header prefix
  decodes and every value there parses as a header of a primary-key tablet, \<open>remove\<close>
  returns \<open>OK\<close>, and afterwards: no header of the tablet remains; a log entry of the
  tablet remains exactly when its id is \<open>UINT64_MAX\<close>, a rowset exactly when its id is
  \<open>UINT32_MAX\<close>, a delete vector exactly when its segment id is \<open>UINT32_MAX\<close>, and a
  pending rowset exactly when its version, read as unsigned, is \<open>INT64_MAX\<close> or more
  (that is, \<open>INT64_MAX\<close> or a negative version); the records of other tablets are
  unchanged.
\<close>

lemma remove_primary_tablet:
  assumes "\<not> read_fails store" and "\<not> write_fails store"
    and "scan_prefix (header_scan_prefix tablet_id) (kv_data store) \<noteq> []"
    and "\<forall>(k, v) \<in> set (scan_prefix (header_scan_prefix tablet_id) (kv_data store)).
           decode_tablet_meta_key k \<noteq> Ret None \<and>
           (\<exists>m. parse_meta pb v = Some m \<and> schema_keys_type m = PRIMARY_KEYS)"
  shows "\<exists>store'.
           remove pb store tablet_id = Ret (OK, store') \<and>
           (\<forall>schema_hash. kv_get store' (encode_tablet_meta_key tablet_id schema_hash) = None) \<and>
           (\<forall>tid logid. kv_get store' (encode_meta_log_key tid logid) =
              (if tid = tablet_id \<and> logid < UINT64_MAX then None
               else kv_get store (encode_meta_log_key tid logid))) \<and>
           (\<forall>tid rowsetid. kv_get store' (encode_meta_rowset_key tid rowsetid) =
              (if tid = tablet_id \<and> rowsetid < UINT32_MAX then None
               else kv_get store (encode_meta_rowset_key tid rowsetid))) \<and>
           (\<forall>tid version. kv_get store' (encode_meta_pending_rowset_key tid version) =
              (if tid = tablet_id \<and> version < INT64_MAX then None
               else kv_get store (encode_meta_pending_rowset_key tid version))) \<and>
           (\<forall>tid segment_id version.
              kv_get store' (encode_del_vector_key tid segment_id version) =
              (if tid = tablet_id \<and> segment_id < UINT32_MAX then None
               else kv_get store (encode_del_vector_key tid segment_id version)))"
proof -
  let ?p = "header_scan_prefix tablet_id"
  let ?store' = "store\<lparr>kv_data :=
      filter (\<lambda>(k, v). \<not> has_prefix ?p k \<and> \<not> in_cleared_ranges tablet_id k) (kv_data store)\<rparr>"
  have r: "remove pb store tablet_id = Ret (OK, ?store')"
    using assms by (rule remove_primary_result)
  have g: "kv_get ?store' k =
      (if \<not> has_prefix ?p k \<and> \<not> in_cleared_ranges tablet_id k then kv_get store k else None)"
    for k
    by (simp add: kv_get_def map_of_filter_key)
  have h: "kv_get ?store' (encode_tablet_meta_key tablet_id schema_hash) = None" for schema_hash
    by (simp add: g header_key_has_scan_prefix)
  have o: "kv_get ?store' (encode_meta_log_key tid logid) =
        (if tid = tablet_id \<and> logid < UINT64_MAX then None
         else kv_get store (encode_meta_log_key tid logid))"
      "kv_get ?store' (encode_meta_rowset_key tid rowsetid) =
        (if tid = tablet_id \<and> rowsetid < UINT32_MAX then None
         else kv_get store (encode_meta_rowset_key tid rowsetid))"
      "kv_get ?store' (encode_meta_pending_rowset_key tid version) =
        (if tid = tablet_id \<and> version < INT64_MAX then None
         else kv_get store (encode_meta_pending_rowset_key tid version))"
      "kv_get ?store' (encode_del_vector_key tid segment_id version) =
        (if tid = tablet_id \<and> segment_id < UINT32_MAX then None
         else kv_get store (encode_del_vector_key tid segment_id version))"
    for tid logid rowsetid version segment_id
    by (simp_all add: g other_keys_no_header_prefix in_cleared_ranges_log
        in_cleared_ranges_rowset in_cleared_ranges_pending in_cleared_ranges_del_vector)
  show ?thesis
    by (rule exI [of _ ?store']) (intro conjI allI r h o)
qed

lemma primary_tablet_scan:
  "scan_prefix (header_scan_prefix 1) (kv_data primary_tablet_store) =
     [(encode_tablet_meta_key 1 2, [1])]"
  by (simp add: scan_prefix_def primary_tablet_store_def store_of_def has_prefix_def
      header_scan_prefix_def example_key_simps)


text \<open>
  Claim C3 is right and the code misses it at the largest ids. The header of tablet 1
  parses as a primary-key tablet, so \<open>remove\<close> stages the four range deletes of
  \<open>clear_log\<close>, \<open>clear_del_vector\<close>, \<open>clear_rowset\<close> and \<open>clear_pending_rowset\<close>. Each
  upper bound is the key of the largest id and is excluded from its range: after the
  successful \<open>remove\<close> the log entry with id \<open>UINT64_MAX\<close>, the rowset with id
  \<open>UINT32_MAX\<close>, the pending rowset of version \<open>INT64_MAX\<close> and the delete vector of
  segment \<open>UINT32_MAX\<close> of the tablet are still in the store, while the header and the
  records at small ids are gone.
\<close>

theorem remove_leaves_extreme_ids:
  "parse_meta example_codec [1] = Some \<lparr>schema_keys_type = PRIMARY_KEYS, updates = None\<rparr> \<and>
   remove example_codec primary_tablet_store 1 =
     Ret (OK, store_of [(encode_del_vector_key 1 UINT32_MAX 5, [5]),
                        (encode_meta_log_key 1 UINT64_MAX, [9]),
                        (encode_meta_pending_rowset_key 1 INT64_MAX, [0, 0, 0, 2]),
                        (encode_meta_rowset_key 1 UINT32_MAX, [255, 255, 255, 255])])"
proof -
  have p: "parse_meta example_codec [1] = Some \<lparr>schema_keys_type = PRIMARY_KEYS, updates = None\<rparr>"
    by (simp add: example_codec_def)
  have v: "visit (remove_traverse_tabletmeta_func example_codec 1)
      (scan_prefix (header_scan_prefix 1) (kv_data primary_tablet_store)) ([], False) =
      Ret ([Delete (encode_tablet_meta_key 1 2)], True)"
    by (simp add: primary_tablet_scan remove_traverse_tabletmeta_func_def
        decode_encode_tablet_meta_key batch_Delete_def p)
  have r: "remove example_codec primary_tablet_store 1 =
      Ret (write_batch primary_tablet_store
            [Delete (encode_tablet_meta_key 1 2),
             DeleteRange (encode_meta_log_key 1 0) (encode_meta_log_key 1 UINT64_MAX),
             DeleteRange (encode_del_vector_key 1 0 INT64_MAX)
               (encode_del_vector_key 1 UINT32_MAX INT64_MAX),
             DeleteRange (encode_meta_rowset_key 1 0) (encode_meta_rowset_key 1 UINT32_MAX),
             DeleteRange (encode_meta_pending_rowset_key 1 0)
               (encode_meta_pending_rowset_key 1 INT64_MAX)])"
    by (simp add: remove_def iterate_def v clear_log_def clear_del_vector_def clear_rowset_def
        clear_pending_rowset_def batch_DeleteRange_def)
      (simp add: primary_tablet_store_def store_of_def)
  have w: "write_batch primary_tablet_store
            [Delete (encode_tablet_meta_key 1 2),
             DeleteRange (encode_meta_log_key 1 0) (encode_meta_log_key 1 UINT64_MAX),
             DeleteRange (encode_del_vector_key 1 0 INT64_MAX)
               (encode_del_vector_key 1 UINT32_MAX INT64_MAX),
             DeleteRange (encode_meta_rowset_key 1 0) (encode_meta_rowset_key 1 UINT32_MAX),
             DeleteRange (encode_meta_pending_rowset_key 1 0)
               (encode_meta_pending_rowset_key 1 INT64_MAX)] =
      (OK, store_of [(encode_del_vector_key 1 UINT32_MAX 5, [5]),
                        (encode_meta_log_key 1 UINT64_MAX, [9]),
                        (encode_meta_pending_rowset_key 1 INT64_MAX, [0, 0, 0, 2]),
                        (encode_meta_rowset_key 1 UINT32_MAX, [255, 255, 255, 255])])"
    by (simp add: write_batch_def primary_tablet_store_def store_of_def kv_delete_def
        kv_delete_range_def example_key_simps)
  from p r w show ?thesis by simp
qed


section \<open>Committing a rowset\<close>

subsection \<open>Sorted content\<close>

lemma set_kv_put: "fst ` set (kv_put k v xs) = insert k (fst ` set xs)"
proof (induction xs)
  case Nil
  show ?case by simp
next
  case (Cons kv r)
  obtain k' v' where kv: "kv = (k', v')" by (cases kv)
  show ?case using Cons.IH by (simp add: kv insert_commute)
qed

lemma kv_sorted_Cons:
  "kv_sorted ((k, v) # xs) = ((\<forall>k' \<in> fst ` set xs. k < k') \<and> kv_sorted xs)"
  by (auto simp: kv_sorted_def)

lemma kv_sorted_kv_put: "kv_sorted xs \<Longrightarrow> kv_sorted (kv_put k v xs)"
proof (induction xs)
  case Nil
  show ?case by (simp add: kv_sorted_def)
next
  case (Cons kv r)
  obtain k' v' where kv: "kv = (k', v')" by (cases kv)
  from Cons.prems kv have s: "\<forall>x \<in> fst ` set r. k' < x" and r: "kv_sorted r"
    by (simp_all add: kv_sorted_Cons)
  show ?case
  proof (cases "k < k'")
    case True
    with s r show ?thesis
      by (auto simp: kv kv_sorted_Cons intro: less_trans)
  next
    case False
    show ?thesis
    proof (cases "k = k'")
      case True
      with s r show ?thesis by (simp add: kv kv_sorted_Cons)
    next
      case ne: False
      with False have "k' < k" by simp
      with s Cons.IH [OF r] False ne show ?thesis
        by (simp add: kv kv_sorted_Cons set_kv_put)
    qed
  qed
qed

lemma kv_sorted_filter: "kv_sorted xs \<Longrightarrow> kv_sorted (filter P xs)"
  by (induction xs) (auto simp: kv_sorted_Cons)

lemma kv_sorted_apply_op: "kv_sorted xs \<Longrightarrow> kv_sorted (apply_op xs op)"
  by (cases op) (simp_all add: kv_sorted_kv_put kv_delete_def kv_delete_range_def kv_sorted_filter)

lemma kv_sorted_apply_batch: "kv_sorted xs \<Longrightarrow> kv_sorted (foldl apply_op xs batch)"
  by (induction batch arbitrary: xs) (simp_all add: kv_sorted_apply_op)

lemma kv_sorted_distinct: "kv_sorted xs \<Longrightarrow> distinct (map fst xs)"
proof (induction xs)
  case Nil
  show ?case by simp
next
  case (Cons kv r)
  obtain k v where kv: "kv = (k, v)" by (cases kv)
  from Cons.prems kv have s: "\<forall>x \<in> fst ` set r. k < x" and r: "kv_sorted r"
    by (simp_all add: kv_sorted_Cons)
  from s have "k \<notin> fst ` set r" by (meson less_irrefl)
  with Cons.IH [OF r] kv show ?case by simp
qed

lemma sorted_single_record:
  "kv_sorted xs \<Longrightarrow> map_of xs k = Some v \<Longrightarrow> filter (\<lambda>(k', v'). k' = k) xs = [(k, v)]"
proof (induction xs)
  case Nil
  then show ?case by simp
next
  case (Cons kv r)
  obtain k' v' where kv: "kv = (k', v')" by (cases kv)
  from Cons.prems(1) kv have s: "\<forall>x \<in> fst ` set r. k' < x" and r: "kv_sorted r"
    by (simp_all add: kv_sorted_Cons)
  show ?case
  proof (cases "k' = k")
    case True
    with Cons.prems(2) kv have "v' = v" by simp
    moreover from s True have "filter (\<lambda>(k', v'). k' = k) r = []"
      by (auto simp: filter_empty_conv)
    ultimately show ?thesis using True kv by simp
  next
    case False
    with Cons.prems(2) kv have "map_of r k = Some v" by simp
    from Cons.IH [OF r this] False kv show ?thesis by simp
  qed
qed

subsection \<open>Pending rowset keys\<close>

lemma pending_key_of_decode:
  assumes "decode_meta_pending_rowset_key k = Some (tid, version)"
    and "has_prefix (TABLET_META_PENDING_ROWSET_PREFIX @ be64 t) k"
  shows "k = encode_meta_pending_rowset_key t version"
proof -
  from assms(2) obtain rest where k: "k = TABLET_META_PENDING_ROWSET_PREFIX @ be64 t @ rest"
    by (auto elim: has_prefixE)
  from assms(1) have l: "length k = 20"
    by (simp add: decode_meta_pending_rowset_key_def split: if_splits)
  then have lr: "length rest = 8" by (simp add: k)
  from assms(1) l have "version = load_be64 (take 8 (drop 12 k))"
    by (simp add: decode_meta_pending_rowset_key_def)
  then have "version = load_be64 rest" using lr by (simp add: k)
  then have "be64 version = rest" using lr by (simp add: be64_load_be64)
  then show ?thesis by (simp add: k encode_meta_pending_rowset_key_def)
qed

lemma pending_collect:
  assumes "visit (pending_rowset_visitor (\<lambda>version value acc. (True, acc @ [version]))) xs acc =
             Ret vs"
    and "v \<in> set vs"
  shows "v \<in> set acc \<or> (\<exists>k val tid. (k, val) \<in> set xs \<and>
           decode_meta_pending_rowset_key k = Some (tid, v))"
  using assms
proof (induction xs arbitrary: acc)
  case Nil
  then show ?case by simp
next
  case (Cons kv r)
  obtain k val where kv: "kv = (k, val)" by (cases kv)
  show ?case
  proof (cases "decode_meta_pending_rowset_key k")
    case None
    then have "pending_rowset_visitor (\<lambda>version value acc. (True, acc @ [version])) k val acc =
        Ret (False, acc)"
      by (simp add: pending_rowset_visitor_def)
    with Cons.prems kv show ?thesis by simp
  next
    case (Some tv)
    obtain tid version where tv: "tv = (tid, version)" by (cases tv)
    have "pending_rowset_visitor (\<lambda>version value acc. (True, acc @ [version])) k val acc =
        Ret (True, acc @ [version])"
      using Some tv by (simp add: pending_rowset_visitor_def)
    with Cons.prems(1) kv
    have "visit (pending_rowset_visitor (\<lambda>version value acc. (True, acc @ [version]))) r
            (acc @ [version]) = Ret vs"
      by simp
    from Cons.IH [OF this Cons.prems(2)] show ?thesis
    proof
      assume "v \<in> set (acc @ [version])"
      then show ?thesis using Some tv kv by auto
    next
      assume "\<exists>k val tid. (k, val) \<in> set r \<and> decode_meta_pending_rowset_key k = Some (tid, v)"
      then show ?thesis by auto
    qed
  qed
qed

lemma pending_never_yields_deleted:
  assumes "kv_get store (encode_meta_pending_rowset_key t version) = None"
    and "pending_rowset_iterate store t (\<lambda>version value acc. (True, acc @ [version])) [] =
           Ret (st, vs)"
  shows "version \<notin> set vs"
proof (cases "read_fails store")
  case True
  with assms(2) show ?thesis by (simp add: pending_rowset_iterate_def iterate_def)
next
  case False
  show ?thesis
  proof
    assume m: "version \<in> set vs"
    let ?p = "TABLET_META_PENDING_ROWSET_PREFIX @ be64 t"
    from assms(2) False
    have "visit (pending_rowset_visitor (\<lambda>version value acc. (True, acc @ [version])))
        (scan_prefix ?p (kv_data store)) [] = Ret vs"
      by (simp add: pending_rowset_iterate_def iterate_def split: res.splits)
    from pending_collect [OF this m] obtain k val tid where
      i: "(k, val) \<in> set (scan_prefix ?p (kv_data store))"
      and d: "decode_meta_pending_rowset_key k = Some (tid, version)"
      by auto
    from i have p: "has_prefix ?p k" and s: "(k, val) \<in> set (kv_data store)"
      by (auto simp: scan_prefix_def)
    from pending_key_of_decode [OF d p] s
    have "encode_meta_pending_rowset_key t version \<in> fst ` set (kv_data store)"
      by force
    then have "map_of (kv_data store) (encode_meta_pending_rowset_key t version) \<noteq> None"
      by (simp add: map_of_eq_None_iff)
    with assms(1) show False by (simp add: kv_get_def)
  qed
qed

lemma pending_rowset_iterate_returns:
  "\<exists>st s'. pending_rowset_iterate store t func s = Ret (st, s')"
proof -
  have "\<exists>s'. visit (pending_rowset_visitor func) xs s = Ret s'" for xs
  proof (induction xs arbitrary: s)
    case Nil
    show ?case by simp
  next
    case (Cons kv r)
    obtain k v where kv: "kv = (k, v)" by (cases kv)
    show ?case
    proof (cases "decode_meta_pending_rowset_key k")
      case None
      then show ?thesis by (simp add: kv pending_rowset_visitor_def)
    next
      case (Some tv)
      obtain tid version where tv: "tv = (tid, version)" by (cases tv)
      obtain c s' where fc: "func version v s = (c, s')" by (cases "func version v s")
      have "pending_rowset_visitor func k v s = Ret (c, s')"
        using Some tv fc by (simp add: pending_rowset_visitor_def)
      with Cons [of s'] kv show ?thesis by simp
    qed
  qed
  then obtain s' where "visit (pending_rowset_visitor func)
      (scan_prefix (TABLET_META_PENDING_ROWSET_PREFIX @ be64 t) (kv_data store)) s = Ret s'"
    by blast
  then show ?thesis
    by (simp add: pending_rowset_iterate_def iterate_def)
qed

lemma rowset_key_not_pending_key:
  "encode_meta_rowset_key t r \<noteq> encode_meta_pending_rowset_key t' v"
  by (simp add: encode_meta_rowset_key_def encode_meta_pending_rowset_key_def
      TABLET_META_ROWSET_PREFIX_def TABLET_META_PENDING_ROWSET_PREFIX_def ascii_def)

lemma rowset_key_has_prefix:
  "has_prefix (TABLET_META_ROWSET_PREFIX @ be64 t) (encode_meta_rowset_key t r)"
  by (simp add: has_prefix_def encode_meta_rowset_key_def)

lemma rowset_commit_batch:
  "rowset_commit pb store tablet_id logid edit rowset rowset_meta_key =
     write_batch store
       ([Put (encode_meta_log_key tablet_id logid)
           (serialize_log pb
              \<lparr>ops = [\<lparr>op_type = OP_ROWSET_COMMIT, commit = Some edit, apply_version = None\<rparr>]\<rparr>),
         Put (encode_meta_rowset_key tablet_id (rowset_seg_id rowset)) (serialize_rowset pb rowset)] @
        (if rowset_meta_key \<noteq> [] then [Delete rowset_meta_key] else []) @
        [Delete (encode_meta_pending_rowset_key tablet_id (major (edit_version edit)))])"
  by (simp add: rowset_commit_def Let_def batch_Put_def batch_Delete_def delete_pending_rowset_def)

lemma set_kv_put_subset: "set (kv_put k v xs) \<subseteq> insert (k, v) (set xs)"
  by (induction xs) (auto split: if_splits)

lemma set_kv_delete_subset: "set (kv_delete k xs) \<subseteq> set xs"
  by (simp add: kv_delete_def)

lemma log_key_no_rowset_prefix:
  "\<not> has_prefix (TABLET_META_ROWSET_PREFIX @ be64 t) (encode_meta_log_key t' l)"
  using namespaces_disjoint(5) [of t' l] by (blast dest: has_prefix_appendD)

lemma rowset_collect:
  assumes "\<forall>(k, v) \<in> set xs. init_rowset pb v \<noteq> None"
  shows "visit (rowset_visitor pb (\<lambda>m acc. (True, acc @ [m]))) xs acc =
         Ret (acc @ map (\<lambda>(k, v). the (init_rowset pb v)) xs)"
  using assms
proof (induction xs arbitrary: acc)
  case Nil
  show ?case by simp
next
  case (Cons kv r)
  obtain k v where kv: "kv = (k, v)" by (cases kv)
  from Cons.prems kv obtain m where m: "init_rowset pb v = Some m" by auto
  have f: "rowset_visitor pb (\<lambda>m acc. (True, acc @ [m])) k v acc = Ret (True, acc @ [m])"
    by (simp add: rowset_visitor_def m)
  from Cons.prems have "\<forall>(k, v) \<in> set r. init_rowset pb v \<noteq> None" by simp
  from Cons.IH [OF this, of "acc @ [m]"] f m kv show ?case by simp
qed

text \<open>
  Claim C2, as amended. \<open>rowset_commit\<close> commits one batch that holds, in this order,
  the put of the log entry (tagged \<open>OP_ROWSET_COMMIT\<close>, carrying the edit) at
  \<open>(tablet_id, logid)\<close>, the put of the rowset record at
  \<open>(tablet_id, rowset.rowset_seg_id())\<close>, the delete of \<open>rowset_meta_key\<close> exactly when it
  is not empty, and the delete of the pending rowset at the major version of the edit.
  When the status is not \<open>OK\<close> the store is unchanged. After a successful commit the
  pending rowset of that version is absent and \<open>pending_rowset_iterate\<close> (with a
  callback that accepts every record) returns without yielding that version. Provided
  \<open>rowset_meta_key\<close> is not the key of the rowset record being written and the store
  was in key order, exactly one record sits under the key of the committed rowset
  afterwards, with the committed value. Provided moreover that the store can be read,
  that the serialised rowset initialises a \<open>RowsetMeta\<close> equal to the rowset, and that
  every other rowset record of the tablet that the commit leaves in the store (one
  under a key that is neither the key of the committed rowset nor \<open>rowset_meta_key\<close>)
  initialises a \<open>RowsetMeta\<close>, and not one equal to the committed rowset,
  \<open>rowset_iterate\<close> with the callback that continues over every record returns \<open>OK\<close> and
  has yielded the committed rowset exactly once.
\<close>

theorem rowset_commit_atomic_batch:
  "rowset_commit pb store tablet_id logid edit rowset rowset_meta_key =
     write_batch store
       ([Put (encode_meta_log_key tablet_id logid)
           (serialize_log pb
              \<lparr>ops = [\<lparr>op_type = OP_ROWSET_COMMIT, commit = Some edit, apply_version = None\<rparr>]\<rparr>),
         Put (encode_meta_rowset_key tablet_id (rowset_seg_id rowset)) (serialize_rowset pb rowset)] @
        (if rowset_meta_key \<noteq> [] then [Delete rowset_meta_key] else []) @
        [Delete (encode_meta_pending_rowset_key tablet_id (major (edit_version edit)))]) \<and>
   (rowset_commit pb store tablet_id logid edit rowset rowset_meta_key = (st, store') \<and> st \<noteq> OK \<longrightarrow>
      store' = store) \<and>
   (rowset_commit pb store tablet_id logid edit rowset rowset_meta_key = (OK, store') \<longrightarrow>
      kv_get store' (encode_meta_pending_rowset_key tablet_id (major (edit_version edit))) = None \<and>
      (\<exists>st' vs. pending_rowset_iterate store' tablet_id
                  (\<lambda>version value acc. (True, acc @ [version])) [] = Ret (st', vs) \<and>
                major (edit_version edit) \<notin> set vs) \<and>
      (kv_sorted (kv_data store) \<and>
       rowset_meta_key \<noteq> encode_meta_rowset_key tablet_id (rowset_seg_id rowset) \<longrightarrow>
         filter (\<lambda>(k, v). k = encode_meta_rowset_key tablet_id (rowset_seg_id rowset))
           (scan_prefix (TABLET_META_ROWSET_PREFIX @ be64 tablet_id) (kv_data store')) =
           [(encode_meta_rowset_key tablet_id (rowset_seg_id rowset), serialize_rowset pb rowset)] \<and>
         (\<not> read_fails store \<and>
          init_rowset pb (serialize_rowset pb rowset) = Some rowset \<and>
          (\<forall>(k, v) \<in> set (scan_prefix (TABLET_META_ROWSET_PREFIX @ be64 tablet_id)
                              (kv_data store)).
             k \<noteq> encode_meta_rowset_key tablet_id (rowset_seg_id rowset) \<and>
             k \<noteq> rowset_meta_key \<longrightarrow>
               init_rowset pb v \<noteq> None \<and> init_rowset pb v \<noteq> Some rowset) \<longrightarrow>
            (\<exists>ms. rowset_iterate pb store' tablet_id (\<lambda>m acc. (True, acc @ [m])) [] =
                     Ret (OK, ms) \<and>
                   count_list ms rowset = 1))))"
  (is "?B \<and> (?F \<longrightarrow> ?G) \<and> (?C \<longrightarrow> ?P1 \<and> ?P2 \<and> (?S \<longrightarrow> ?R1 \<and> (?V \<longrightarrow> ?R2)))")
proof -
  let ?logkey = "encode_meta_log_key tablet_id logid"
  let ?logvalue = "serialize_log pb
      \<lparr>ops = [\<lparr>op_type = OP_ROWSET_COMMIT, commit = Some edit, apply_version = None\<rparr>]\<rparr>"
  let ?rk = "encode_meta_rowset_key tablet_id (rowset_seg_id rowset)"
  let ?rv = "serialize_rowset pb rowset"
  let ?pk = "encode_meta_pending_rowset_key tablet_id (major (edit_version edit))"
  let ?batch = "[Put ?logkey ?logvalue, Put ?rk ?rv] @
        (if rowset_meta_key \<noteq> [] then [Delete rowset_meta_key] else []) @ [Delete ?pk]"
  let ?p = "TABLET_META_ROWSET_PREFIX @ be64 tablet_id"
  have b: ?B by (rule rowset_commit_batch)
  have fg: "?F \<longrightarrow> ?G"
    by (auto simp: b write_batch_def split: if_splits)
  have c: "?P1 \<and> ?P2 \<and> (?S \<longrightarrow> ?R1 \<and> (?V \<longrightarrow> ?R2))" if c: ?C
  proof -
    from c have d: "kv_data store' = foldl apply_op (kv_data store) ?batch"
      and fl: "read_fails store' = read_fails store"
      by (auto simp: b write_batch_def split: if_splits)
    have p1: ?P1
      by (simp add: kv_get_def d map_of_kv_delete)
    have p2: ?P2
    proof -
      from pending_rowset_iterate_returns [of store' tablet_id
          "\<lambda>version value acc. (True, acc @ [version])" "[]"]
      obtain st' vs where it: "pending_rowset_iterate store' tablet_id
          (\<lambda>version value acc. (True, acc @ [version])) [] = Ret (st', vs)"
        by blast
      from pending_never_yields_deleted [OF p1 it] it show ?thesis by blast
    qed
    have r: "?R1 \<and> (?V \<longrightarrow> ?R2)" if s: ?S
    proof -
      from s have srt: "kv_sorted (kv_data store')"
        unfolding d by (intro kv_sorted_apply_batch) simp
      from s have ne: "?rk \<noteq> rowset_meta_key" by auto
      have m: "map_of (kv_data store') ?rk = Some ?rv"
        using ne rowset_key_not_pending_key [of tablet_id "rowset_seg_id rowset"]
        by (simp add: d map_of_kv_delete map_of_kv_put)
      have one: "filter (\<lambda>(k, v). k = ?rk) (kv_data store') = [(?rk, ?rv)]"
        using srt m by (rule sorted_single_record)
      have "filter (\<lambda>(k, v). k = ?rk) (scan_prefix ?p (kv_data store')) =
          filter (\<lambda>(k, v). k = ?rk) (kv_data store')"
        unfolding scan_prefix_def filter_filter
        by (rule filter_cong) (auto simp: rowset_key_has_prefix)
      with one have r1: ?R1 by simp
      have r2: ?R2 if v: ?V
      proof -
        let ?xs = "scan_prefix ?p (kv_data store')"
        let ?g = "\<lambda>(k, v). the (init_rowset pb v)"
        from v have rf: "\<not> read_fails store'"
          and rt: "init_rowset pb ?rv = Some rowset"
          and wf: "\<forall>(k, v) \<in> set (scan_prefix ?p (kv_data store)).
                     k \<noteq> ?rk \<and> k \<noteq> rowset_meta_key \<longrightarrow>
                       init_rowset pb v \<noteq> None \<and> init_rowset pb v \<noteq> Some rowset"
          by (simp_all add: fl)
        have sub: "set (kv_data store') \<subseteq>
            insert (?rk, ?rv) (insert (?logkey, ?logvalue) (set (kv_data store)))"
        proof -
          have "set (kv_data store') \<subseteq> set (kv_put ?rk ?rv (kv_put ?logkey ?logvalue (kv_data store)))"
            using set_kv_delete_subset
            by (simp add: d) (meson order_trans)
          also have "\<dots> \<subseteq> insert (?rk, ?rv) (set (kv_put ?logkey ?logvalue (kv_data store)))"
            by (rule set_kv_put_subset)
          also have "\<dots> \<subseteq> insert (?rk, ?rv) (insert (?logkey, ?logvalue) (set (kv_data store)))"
            using set_kv_put_subset [of ?logkey ?logvalue "kv_data store"] by blast
          finally show ?thesis .
        qed
        have gone: "rowset_meta_key \<notin> fst ` set (kv_data store')" if "rowset_meta_key \<noteq> []"
          using that by (auto simp: d kv_delete_def)
        have dk: "distinct (map fst (kv_data store'))"
          using srt by (rule kv_sorted_distinct)
        have here: "(?rk, ?rv) \<in> set (kv_data store')"
          using m by (rule map_of_SomeD)
        have cls: "(k = ?rk \<and> v = ?rv) \<or>
            (k \<noteq> ?rk \<and> init_rowset pb v \<noteq> None \<and> init_rowset pb v \<noteq> Some rowset)"
          if kv: "(k, v) \<in> set ?xs" for k v
        proof (cases "k = ?rk")
          case True
          from kv have "(k, v) \<in> set (kv_data store')" by (simp add: scan_prefix_def)
          with True here dk have "v = ?rv" by (auto dest: eq_key_imp_eq_value)
          with True show ?thesis by simp
        next
          case False
          from kv have i: "(k, v) \<in> set (kv_data store')" and hp: "has_prefix ?p k"
            by (simp_all add: scan_prefix_def)
          from hp have "k \<noteq> []"
            by (auto simp: has_prefix_def TABLET_META_ROWSET_PREFIX_def ascii_def)
          with gone i have nk: "k \<noteq> rowset_meta_key" by force
          from i sub False have "(k, v) = (?logkey, ?logvalue) \<or> (k, v) \<in> set (kv_data store)"
            by blast
          then have "(k, v) \<in> set (scan_prefix ?p (kv_data store))"
          proof
            assume "(k, v) = (?logkey, ?logvalue)"
            with hp log_key_no_rowset_prefix [of tablet_id tablet_id logid] show ?thesis
              by simp
          next
            assume "(k, v) \<in> set (kv_data store)"
            with hp show ?thesis by (simp add: scan_prefix_def)
          qed
          with wf False nk show ?thesis by blast
        qed
        have i: "\<forall>(k, v) \<in> set ?xs. init_rowset pb v \<noteq> None"
          using cls rt by fastforce
        have it: "rowset_iterate pb store' tablet_id (\<lambda>m acc. (True, acc @ [m])) [] =
            Ret (OK, map ?g ?xs)"
          using rf by (simp add: rowset_iterate_def iterate_def rowset_collect [OF i])
        have "filter (\<lambda>kv. rowset = ?g kv) ?xs = filter (\<lambda>(k, v). k = ?rk) ?xs"
        proof (rule filter_cong [OF refl])
          fix kv
          assume a: "kv \<in> set ?xs"
          obtain k v where kv: "kv = (k, v)" by (cases kv)
          from cls [of k v] a kv rt
          show "(rowset = ?g kv) = (case kv of (k, v) \<Rightarrow> k = ?rk)"
            by (auto simp: kv)
        qed
        with r1 have "filter (\<lambda>kv. rowset = ?g kv) ?xs = [(?rk, ?rv)]" by simp
        then have "length (filter ((=) rowset) (map ?g ?xs)) = 1"
          by (simp add: filter_map comp_def)
        then have "count_list (map ?g ?xs) rowset = 1"
          by (simp only: count_list_eq_length_filter)
        with it show ?thesis by blast
      qed
      from r1 r2 show ?thesis by blast
    qed
    from p1 p2 r show ?thesis by blast
  qed
  from b fg c show ?thesis by blast
qed

lemma rowset_commit_example:
  "rowset_commit example_codec pending_store 1 0 \<lparr>edit_version = \<lparr>major = 5, minor = 0\<rparr>\<rparr>
     \<lparr>rowset_seg_id = 3\<rparr> [] = (OK, committed_store)"
  by (simp add: rowset_commit_batch write_batch_def pending_store_def committed_store_def
      store_of_def kv_delete_def example_codec_def example_key_simps)

lemma pending_store_scan:
  "scan_prefix (TABLET_META_ROWSET_PREFIX @ be64 1) (kv_data pending_store) =
     [(encode_meta_rowset_key 1 2, [0, 0, 0, 2])]"
  by (simp add: scan_prefix_def pending_store_def store_of_def has_prefix_def example_key_simps)

lemma committed_store_scan:
  "scan_prefix (TABLET_META_ROWSET_PREFIX @ be64 1) (kv_data committed_store) =
     [(encode_meta_rowset_key 1 2, [0, 0, 0, 2]), (encode_meta_rowset_key 1 3, [0, 0, 0, 3])]"
  by (simp add: scan_prefix_def committed_store_def store_of_def has_prefix_def example_key_simps)

lemma example_init_rowset:
  "init_rowset example_codec (serialize_rowset example_codec m) = Some m"
  by (simp add: example_codec_def)

theorem rowset_commit_atomic_batch_witness:
  "rowset_commit example_codec pending_store 1 0 \<lparr>edit_version = \<lparr>major = 5, minor = 0\<rparr>\<rparr>
     \<lparr>rowset_seg_id = 3\<rparr> [] = (OK, committed_store) \<and>
   kv_get pending_store (encode_meta_pending_rowset_key 1 5) = Some [0, 0, 0, 3] \<and>
   kv_get committed_store (encode_meta_pending_rowset_key 1 5) = None \<and>
   pending_rowset_iterate committed_store 1 (\<lambda>version value acc. (True, acc @ [version])) [] =
     Ret (OK, []) \<and>
   filter (\<lambda>(k, v). k = encode_meta_rowset_key 1 3)
     (scan_prefix (TABLET_META_ROWSET_PREFIX @ be64 1) (kv_data committed_store)) =
     [(encode_meta_rowset_key 1 3, serialize_rowset example_codec \<lparr>rowset_seg_id = 3\<rparr>)] \<and>
   (\<exists>ms. rowset_iterate example_codec committed_store 1 (\<lambda>m acc. (True, acc @ [m])) [] =
            Ret (OK, ms) \<and>
          count_list ms \<lparr>rowset_seg_id = 3\<rparr> = 1) \<and>
   rowset_iterate example_codec committed_store 1 (\<lambda>m acc. (True, acc @ [m])) [] =
     Ret (OK, [\<lparr>rowset_seg_id = 2\<rparr>, \<lparr>rowset_seg_id = 3\<rparr>])"
proof -
  let ?edit = "\<lparr>edit_version = \<lparr>major = 5, minor = 0\<rparr>\<rparr>"
  let ?rowset = "\<lparr>rowset_seg_id = 3\<rparr>"
  note t = rowset_commit_atomic_batch [of example_codec pending_store 1 0 ?edit ?rowset "[]"
      OK committed_store]
  have m: "major (edit_version ?edit) = (5 :: 64 word)" "rowset_seg_id ?rowset = (3 :: 32 word)"
    by simp_all
  note c = t [THEN conjunct2, THEN conjunct2, THEN mp, OF rowset_commit_example, unfolded m]
  have srt: "kv_sorted (kv_data pending_store)"
    by (simp add: pending_store_def store_of_def kv_sorted_def example_key_simps)
  have ne: "[] \<noteq> encode_meta_rowset_key 1 3"
    by (simp add: encode_meta_rowset_key_def be32_def)
  have rf: "\<not> read_fails pending_store"
    by (simp add: pending_store_def store_of_def)
  have rt: "init_rowset example_codec (serialize_rowset example_codec ?rowset) = Some ?rowset"
    by (rule example_init_rowset)
  have wf: "\<forall>(k, v) \<in> set (scan_prefix (TABLET_META_ROWSET_PREFIX @ be64 1)
                              (kv_data pending_store)).
      k \<noteq> encode_meta_rowset_key 1 3 \<and> k \<noteq> [] \<longrightarrow>
        init_rowset example_codec v \<noteq> None \<and> init_rowset example_codec v \<noteq> Some ?rowset"
    by (simp add: pending_store_scan example_codec_def load_be32_def)
  note r = c [THEN conjunct2, THEN conjunct2, THEN mp, OF conjI [OF srt ne]]
  note r2 = r [THEN conjunct2, THEN mp, OF conjI [OF rf conjI [OF rt wf]]]
  have b: "kv_get pending_store (encode_meta_pending_rowset_key 1 5) = Some [0, 0, 0, 3]"
    by (simp add: kv_get_def pending_store_def store_of_def)
  have p: "pending_rowset_iterate committed_store 1
      (\<lambda>version value acc. (True, acc @ [version])) [] = Ret (OK, [])"
    by (simp add: pending_rowset_iterate_def iterate_def committed_store_def store_of_def
        scan_prefix_def has_prefix_def example_key_simps)
  have i: "\<forall>(k, v) \<in> set [(encode_meta_rowset_key 1 2, [0, 0, 0, 2 :: byte]),
      (encode_meta_rowset_key 1 3, [0, 0, 0, 3])]. init_rowset example_codec v \<noteq> None"
    by (simp add: example_codec_def)
  have e: "rowset_iterate example_codec committed_store 1 (\<lambda>m acc. (True, acc @ [m])) [] =
      Ret (OK, [\<lparr>rowset_seg_id = 2\<rparr>, \<lparr>rowset_seg_id = 3\<rparr>])"
    by (simp add: rowset_iterate_def iterate_def committed_store_scan rowset_collect [OF i]
        del: visit.simps)
      (simp add: example_codec_def load_be32_def committed_store_def store_of_def)
  from rowset_commit_example b c [THEN conjunct1] p r [THEN conjunct1] r2 e
  show ?thesis by (intro conjI)
qed

text \<open>
  The claim as stated fails when \<open>rowset_meta_key\<close> is the key of the rowset record
  itself: the delete of \<open>rowset_meta_key\<close> is staged after the put of the rowset, so the
  successful commit leaves no rowset record and \<open>rowset_iterate\<close> yields nothing. It
  also fails on a store that already holds a rowset record of the tablet whose value
  does not initialise a \<open>RowsetMeta\<close>: after the successful commit \<open>rowset_iterate\<close> stops
  at the \<open>CHECK\<close> on that record, before it yields the committed rowset. And it fails on
  a store that holds, under the key of another id, the serialised rowset that is
  committed: \<open>rowset_iterate\<close> then yields the committed rowset twice.
\<close>

theorem rowset_commit_rowset_iterate_counterexample:
  "rowset_commit example_codec (store_of []) 1 0 \<lparr>edit_version = \<lparr>major = 5, minor = 0\<rparr>\<rparr>
     \<lparr>rowset_seg_id = 3\<rparr> (encode_meta_rowset_key 1 3) =
     (OK, store_of [(encode_meta_log_key 1 0, [1])]) \<and>
   rowset_iterate example_codec (store_of [(encode_meta_log_key 1 0, [1])]) 1
     (\<lambda>m acc. (True, acc @ [m])) [] = Ret (OK, []) \<and>
   rowset_commit example_codec (store_of [(encode_meta_rowset_key 1 2, [])]) 1 0
     \<lparr>edit_version = \<lparr>major = 5, minor = 0\<rparr>\<rparr> \<lparr>rowset_seg_id = 3\<rparr> [] =
     (OK, store_of [(encode_meta_log_key 1 0, [1]), (encode_meta_rowset_key 1 2, []),
                    (encode_meta_rowset_key 1 3, [0, 0, 0, 3])]) \<and>
   rowset_iterate example_codec
     (store_of [(encode_meta_log_key 1 0, [1]), (encode_meta_rowset_key 1 2, []),
                (encode_meta_rowset_key 1 3, [0, 0, 0, 3])]) 1
     (\<lambda>m acc. (True, acc @ [m])) [] = Abort \<and>
   rowset_commit example_codec (store_of [(encode_meta_rowset_key 1 2, [0, 0, 0, 3])]) 1 0
     \<lparr>edit_version = \<lparr>major = 5, minor = 0\<rparr>\<rparr> \<lparr>rowset_seg_id = 3\<rparr> [] =
     (OK, store_of [(encode_meta_log_key 1 0, [1]), (encode_meta_rowset_key 1 2, [0, 0, 0, 3]),
                    (encode_meta_rowset_key 1 3, [0, 0, 0, 3])]) \<and>
   rowset_iterate example_codec
     (store_of [(encode_meta_log_key 1 0, [1]), (encode_meta_rowset_key 1 2, [0, 0, 0, 3]),
                (encode_meta_rowset_key 1 3, [0, 0, 0, 3])]) 1
     (\<lambda>m acc. (True, acc @ [m])) [] =
     Ret (OK, [\<lparr>rowset_seg_id = 3\<rparr>, \<lparr>rowset_seg_id = 3\<rparr>])"
proof -
  let ?edit = "\<lparr>edit_version = \<lparr>major = 5, minor = 0\<rparr>\<rparr>"
  let ?collect = "\<lambda>(m :: RowsetMetaPB) (acc :: RowsetMetaPB list). (True, acc @ [m])"
  have c1: "rowset_commit example_codec (store_of []) 1 0 ?edit
     \<lparr>rowset_seg_id = 3\<rparr> (encode_meta_rowset_key 1 3) =
     (OK, store_of [(encode_meta_log_key 1 0, [1])])"
    by (simp add: rowset_commit_batch write_batch_def store_of_def kv_delete_def
        example_codec_def example_key_simps)
  have i1: "rowset_iterate example_codec (store_of [(encode_meta_log_key 1 0, [1])]) 1
     ?collect [] = Ret (OK, [])"
    by (simp add: rowset_iterate_def iterate_def store_of_def scan_prefix_def has_prefix_def
        example_key_simps)
  have c2: "rowset_commit example_codec (store_of [(encode_meta_rowset_key 1 2, [])]) 1 0
     ?edit \<lparr>rowset_seg_id = 3\<rparr> [] =
     (OK, store_of [(encode_meta_log_key 1 0, [1]), (encode_meta_rowset_key 1 2, []),
                    (encode_meta_rowset_key 1 3, [0, 0, 0, 3])])"
    by (simp add: rowset_commit_batch write_batch_def store_of_def kv_delete_def
        example_codec_def example_key_simps)
  have s2: "scan_prefix (TABLET_META_ROWSET_PREFIX @ be64 1)
      [(encode_meta_log_key 1 0, [1]), (encode_meta_rowset_key 1 2, []),
       (encode_meta_rowset_key 1 3, [0, 0, 0, 3])] =
      [(encode_meta_rowset_key 1 2, []), (encode_meta_rowset_key 1 3, [0, 0, 0, 3])]"
    by (simp add: scan_prefix_def has_prefix_def example_key_simps)
  have a2: "rowset_visitor example_codec ?collect (encode_meta_rowset_key 1 2) [] [] = Abort"
    by (simp add: rowset_visitor_def example_codec_def)
  have i2: "rowset_iterate example_codec
     (store_of [(encode_meta_log_key 1 0, [1]), (encode_meta_rowset_key 1 2, []),
                (encode_meta_rowset_key 1 3, [0, 0, 0, 3])]) 1 ?collect [] = Abort"
    by (simp add: rowset_iterate_def iterate_def store_of_def s2 a2)
  have c3: "rowset_commit example_codec (store_of [(encode_meta_rowset_key 1 2, [0, 0, 0, 3])]) 1 0
     ?edit \<lparr>rowset_seg_id = 3\<rparr> [] =
     (OK, store_of [(encode_meta_log_key 1 0, [1]), (encode_meta_rowset_key 1 2, [0, 0, 0, 3]),
                    (encode_meta_rowset_key 1 3, [0, 0, 0, 3])])"
    by (simp add: rowset_commit_batch write_batch_def store_of_def kv_delete_def
        example_codec_def example_key_simps)
  have s3: "scan_prefix (TABLET_META_ROWSET_PREFIX @ be64 1)
      [(encode_meta_log_key 1 0, [1]), (encode_meta_rowset_key 1 2, [0, 0, 0, 3]),
       (encode_meta_rowset_key 1 3, [0, 0, 0, 3])] =
      [(encode_meta_rowset_key 1 2, [0, 0, 0, 3]), (encode_meta_rowset_key 1 3, [0, 0, 0, 3])]"
    by (simp add: scan_prefix_def has_prefix_def example_key_simps)
  have n3: "\<forall>(k, v) \<in> set [(encode_meta_rowset_key 1 2, [0, 0, 0, 3 :: byte]),
      (encode_meta_rowset_key 1 3, [0, 0, 0, 3])]. init_rowset example_codec v \<noteq> None"
    by (simp add: example_codec_def)
  have i3: "rowset_iterate example_codec
     (store_of [(encode_meta_log_key 1 0, [1]), (encode_meta_rowset_key 1 2, [0, 0, 0, 3]),
                (encode_meta_rowset_key 1 3, [0, 0, 0, 3])]) 1 ?collect [] =
     Ret (OK, [\<lparr>rowset_seg_id = 3\<rparr>, \<lparr>rowset_seg_id = 3\<rparr>])"
    by (simp add: rowset_iterate_def iterate_def store_of_def s3 rowset_collect [OF n3]
        del: visit.simps)
      (simp add: example_codec_def load_be32_def)
  from c1 i1 c2 i2 c3 i3 show ?thesis by (intro conjI)
qed

section \<open>Looking up a delete vector\<close>

lemma decode_version_of_key:
  "decode_del_vector_key_version (encode_del_vector_key t s v) = Ret v"
  by (simp add: decode_del_vector_key_version_def encode_del_vector_key_def)

lemma traverse_versions_step:
  "traverse_versions pb version (encode_del_vector_key t s v) d (st, found, first, dv, lv) =
     (if sint v \<le> sint version
      then Ret (False, (fst (delvec_load pb v d), True, False, snd (delvec_load pb v d),
                        if first then v else lv))
      else Ret (True, (st, found, False, dv, if first then v else lv)))"
  by (simp add: traverse_versions_def decode_version_of_key Let_def split: prod.splits)

lemma visit_traverse_versions:
  "visit (traverse_versions pb version) (map (\<lambda>(v, d). (encode_del_vector_key t s v, d)) vds)
     (st, found, first, dv, lv) =
   Ret (case find (\<lambda>(v, d). sint v \<le> sint version) vds of
          None \<Rightarrow> (st, found, first \<and> vds = [], dv,
                   if first \<and> vds \<noteq> [] then fst (hd vds) else lv)
        | Some (v, d) \<Rightarrow> (fst (delvec_load pb v d), True, False, snd (delvec_load pb v d),
                         if first then fst (hd vds) else lv))"
proof (induction vds arbitrary: st found first dv lv)
  case Nil
  show ?case by simp
next
  case (Cons vd r)
  obtain v d where vd: "vd = (v, d)" by (cases vd)
  show ?case
  proof (cases "sint v \<le> sint version")
    case True
    then show ?thesis by (simp add: vd traverse_versions_step)
  next
    case False
    then show ?thesis
      by (simp add: vd traverse_versions_step Cons.IH split: option.splits)
  qed
qed

lemma find_descending:
  assumes "sorted_wrt (\<lambda>a b. sint (fst b) < sint (fst a)) vds"
    and "find (\<lambda>(v, d). sint v \<le> sint q) vds = Some (v0, d0)"
  shows "(v0, d0) \<in> set vds \<and> sint v0 \<le> sint q \<and>
         (\<forall>(v, d) \<in> set vds. sint v \<le> sint q \<longrightarrow> sint v \<le> sint v0)"
  using assms
proof (induction vds)
  case Nil
  then show ?case by simp
next
  case (Cons vd r)
  obtain v d where vd: "vd = (v, d)" by (cases vd)
  show ?case
  proof (cases "sint v \<le> sint q")
    case True
    with Cons.prems vd have "v0 = v" "d0 = d" by simp_all
    with Cons.prems(1) vd True show ?thesis by (auto simp: less_imp_le)
  next
    case False
    with Cons.prems vd have "find (\<lambda>(v, d). sint v \<le> sint q) r = Some (v0, d0)"
      and "sorted_wrt (\<lambda>a b. sint (fst b) < sint (fst a)) r"
      by simp_all
    from Cons.IH [OF this(2) this(1)] False vd show ?thesis by auto
  qed
qed

lemma hd_descending:
  assumes "sorted_wrt (\<lambda>a b. sint (fst b) < sint (fst a)) vds" and "(v, d) \<in> set vds"
  shows "sint v \<le> sint (fst (hd vds))"
  using assms by (cases vds) (auto simp: less_imp_le)

lemma stored_version_inverse: "INT64_MAX - (INT64_MAX - (v :: 64 word)) = v"
  by simp

lemma del_vector_key_of_prefix:
  assumes "has_prefix (TABLET_DELVEC_PREFIX @ be64 t @ be32 s) k" and "length k = 24"
  shows "k = encode_del_vector_key t s (INT64_MAX - load_be64 (drop 16 k))"
proof -
  from assms(1) obtain rest where k: "k = (TABLET_DELVEC_PREFIX @ be64 t @ be32 s) @ rest"
    by (rule has_prefixE)
  with assms(2) have l: "length rest = 8" by simp
  have "drop 16 k = rest" by (simp add: k)
  moreover have "be64 (load_be64 rest) = rest" using l by (rule be64_load_be64)
  ultimately show ?thesis by (simp add: k encode_del_vector_key_def)
qed

lemma del_vector_key_inj:
  "(encode_del_vector_key t s v = encode_del_vector_key t s v') = (v = v')"
proof
  assume e: "encode_del_vector_key t s v = encode_del_vector_key t s v'"
  then have "encode_del_vector_key t s v \<le> encode_del_vector_key t s v'"
    and "encode_del_vector_key t s v' \<le> encode_del_vector_key t s v"
    by simp_all
  then have "sint v = sint v'" by (simp add: del_vector_key_le)
  then show "v = v'" by (rule signed_word_eqI)
qed simp

text \<open>The records of a segment that the scan of \<open>get_del_vector\<close> reaches, as pairs of
  version and value in the order of the scan: those at the versions from 1 on, and the
  one at version 0 when the range scan includes its upper bound.\<close>

lemma del_vector_scan:
  fixes incl :: bool
  assumes srt: "kv_sorted data"
    and wf: "\<forall>(k, d) \<in> set data.
               has_prefix (TABLET_DELVEC_PREFIX @ be64 t @ be32 s) k \<longrightarrow> length k = 24"
  defines "xs \<equiv> scan_range incl (encode_del_vector_key t s INT64_MAX)
                  (encode_del_vector_key t s 0) data"
  defines "vds \<equiv> map (\<lambda>(k, d). (INT64_MAX - load_be64 (drop 16 k), d)) xs"
  shows "xs = map (\<lambda>(v, d). (encode_del_vector_key t s v, d)) vds"
    and "sorted_wrt (\<lambda>a b. sint (fst b) < sint (fst a)) vds"
    and "set vds = {(v, d). map_of data (encode_del_vector_key t s v) = Some d \<and>
                            (0 < sint v \<or> incl \<and> v = 0)}"
proof -
  let ?cv = "\<lambda>k. INT64_MAX - load_be64 (drop 16 k)"
  have rng: "((k, d) \<in> set xs) =
      ((k, d) \<in> set data \<and> encode_del_vector_key t s INT64_MAX \<le> k \<and>
       (k < encode_del_vector_key t s 0 \<or> incl \<and> k = encode_del_vector_key t s 0))" for k d
    by (auto simp: xs_def scan_range_def)
  have key: "k = encode_del_vector_key t s (?cv k)" if "(k, d) \<in> set xs" for k d
  proof -
    from that have l: "encode_del_vector_key t s INT64_MAX \<le> k"
      and u: "k < encode_del_vector_key t s 0 \<or> k = encode_del_vector_key t s 0"
      and m: "(k, d) \<in> set data"
      by (auto simp: rng)
    from u have p: "has_prefix (TABLET_DELVEC_PREFIX @ be64 t @ be32 s) k"
    proof
      assume "k < encode_del_vector_key t s 0"
      with l show ?thesis by (rule del_vector_range_prefix)
    next
      assume "k = encode_del_vector_key t s 0"
      then show ?thesis by (simp add: del_vector_key_has_prefix)
    qed
    with wf m have "length k = 24" by auto
    with p show ?thesis by (rule del_vector_key_of_prefix)
  qed
  show 1: "xs = map (\<lambda>(v, d). (encode_del_vector_key t s v, d)) vds"
  proof -
    have "map (\<lambda>(v, d). (encode_del_vector_key t s v, d)) vds =
        map (\<lambda>(k, d). (encode_del_vector_key t s (?cv k), d)) xs"
      by (simp add: vds_def comp_def case_prod_unfold)
    also have "\<dots> = map (\<lambda>kd. kd) xs"
      by (rule map_cong) (auto dest: key)
    finally show ?thesis by simp
  qed
  have sx: "sorted_wrt (<) (map fst xs)"
    using kv_sorted_filter [OF srt] unfolding xs_def scan_range_def kv_sorted_def .
  show "sorted_wrt (\<lambda>a b. sint (fst b) < sint (fst a)) vds"
  proof -
    have "sorted_wrt (<) (map fst (map (\<lambda>(v, d). (encode_del_vector_key t s v, d)) vds))"
      using sx 1 by simp
    then have "sorted_wrt (\<lambda>a b. encode_del_vector_key t s (fst a) < encode_del_vector_key t s (fst b)) vds"
      by (simp add: sorted_wrt_map case_prod_unfold)
    then show ?thesis by (simp add: del_vector_key_less)
  qed
  have dist: "distinct (map fst data)" using srt by (rule kv_sorted_distinct)
  show "set vds = {(v, d). map_of data (encode_del_vector_key t s v) = Some d \<and>
                           (0 < sint v \<or> incl \<and> v = 0)}"
  proof (intro set_eqI iffI)
    fix vd
    assume "vd \<in> set vds"
    then obtain k d where kd: "(k, d) \<in> set xs" and vd: "vd = (?cv k, d)"
      by (auto simp: vds_def)
    from kd have r: "k < encode_del_vector_key t s 0 \<or> incl \<and> k = encode_del_vector_key t s 0"
      and m: "(k, d) \<in> set data"
      by (auto simp: rng)
    from key [OF kd] have k: "k = encode_del_vector_key t s (?cv k)" .
    from m dist have "map_of data k = Some d" by (simp add: map_of_is_SomeI)
    moreover from r have "0 < sint (?cv k) \<or> incl \<and> ?cv k = 0"
    proof
      assume "k < encode_del_vector_key t s 0"
      with k have "0 < sint (?cv k)"
        by (metis del_vector_key_less less_irrefl sint_0)
      then show ?thesis ..
    next
      assume a: "incl \<and> k = encode_del_vector_key t s 0"
      with k have "encode_del_vector_key t s (?cv k) = encode_del_vector_key t s 0" by simp
      then have "?cv k = 0" by (simp only: del_vector_key_inj)
      with a show ?thesis by simp
    qed
    ultimately show "vd \<in> {(v, d). map_of data (encode_del_vector_key t s v) = Some d \<and>
        (0 < sint v \<or> incl \<and> v = 0)}"
      using k vd by auto
  next
    fix vd
    assume a: "vd \<in> {(v, d). map_of data (encode_del_vector_key t s v) = Some d \<and>
        (0 < sint v \<or> incl \<and> v = 0)}"
    obtain v d where vd: "vd = (v, d)" by (cases vd)
    with a have m: "map_of data (encode_del_vector_key t s v) = Some d"
      and p: "0 < sint v \<or> incl \<and> v = 0"
      by auto
    from m have i: "(encode_del_vector_key t s v, d) \<in> set data" by (rule map_of_SomeD)
    have "sint v \<le> 2 ^ 63 - 1" using sint_lt [of v] by simp
    with p i have "(encode_del_vector_key t s v, d) \<in> set xs"
      by (auto simp: rng del_vector_key_less del_vector_key_le sint_INT64_MAX)
    then have "(?cv (encode_del_vector_key t s v), d) \<in> set vds"
      unfolding vds_def by force
    then show "vd \<in> set vds"
      by (simp add: vd encode_del_vector_key_def)
  qed
qed

lemma get_del_vector_scan_result:
  assumes rf: "\<not> read_fails meta" and srt: "kv_sorted (kv_data meta)"
    and wf: "\<forall>(k, d) \<in> set (kv_data meta).
               has_prefix (TABLET_DELVEC_PREFIX @ be64 t @ be32 s) k \<longrightarrow> length k = 24"
  shows "\<exists>vds.
           sorted_wrt (\<lambda>a b. sint (fst b) < sint (fst a)) vds \<and>
           set vds = {(v, d). kv_get meta (encode_del_vector_key t s v) = Some d \<and>
                              (0 < sint v \<or> range_end_included meta \<and> v = 0)} \<and>
           get_del_vector pb meta t s version delvec latest_version =
             Ret (case find (\<lambda>(v, d). sint v \<le> sint version) vds of
                    None \<Rightarrow> (NotFound, delvec,
                             if vds \<noteq> [] then fst (hd vds) else latest_version)
                  | Some (v, d) \<Rightarrow> (OK, snd (delvec_load pb v d), fst (hd vds)))"
proof -
  let ?xs = "scan_range (range_end_included meta) (encode_del_vector_key t s INT64_MAX)
               (encode_del_vector_key t s 0) (kv_data meta)"
  let ?vds = "map (\<lambda>(k, d). (INT64_MAX - load_be64 (drop 16 k), d)) ?xs"
  note sc = del_vector_scan [OF srt wf, of "range_end_included meta"]
  have v: "visit (traverse_versions pb version) ?xs (OK, False, True, delvec, latest_version) =
      Ret (case find (\<lambda>(v, d). sint v \<le> sint version) ?vds of
          None \<Rightarrow> (OK, False, True \<and> ?vds = [], delvec,
                   if True \<and> ?vds \<noteq> [] then fst (hd ?vds) else latest_version)
        | Some (v, d) \<Rightarrow> (fst (delvec_load pb v d), True, False, snd (delvec_load pb v d),
                         if True then fst (hd ?vds) else latest_version))"
    by (subst sc(1)) (rule visit_traverse_versions)
  have g: "get_del_vector pb meta t s version delvec latest_version =
      Ret (case find (\<lambda>(v, d). sint v \<le> sint version) ?vds of
             None \<Rightarrow> (NotFound, delvec, if ?vds \<noteq> [] then fst (hd ?vds) else latest_version)
           | Some (v, d) \<Rightarrow> (OK, snd (delvec_load pb v d), fst (hd ?vds)))"
    using rf
    by (simp only: get_del_vector_def iterate_range_def Let_def v if_False)
      (simp split: option.splits)
  from sc(2) sc(3) g show ?thesis
    unfolding kv_get_def by (intro exI [of _ ?vds] conjI)
qed

text \<open>
  What \<open>get_del_vector\<close> does, on a store in key order that can be read and whose keys
  under the delete-vector prefix of the segment are 24 bytes long. The scan runs from
  the key of version \<open>INT64_MAX\<close> to the key of version 0, so the records it can reach
  are those of the segment at the versions from 1 on, and the record at version 0
  exactly when the range scan of the store includes its upper bound. It returns
  \<open>NotFound\<close> when none of the records it can reach has a version at most the query
  version; otherwise it loads the one with the greatest such version. It sets
  \<open>latest_version\<close> to the greatest version among them when there is one, and leaves it
  as it was when there is none. The status of a found record is \<open>OK\<close>: the status of
  \<open>load\<close> is overwritten by the status of the scan.
\<close>

lemma get_del_vector_greatest_version:
  fixes meta :: KVStore
  assumes rf: "\<not> read_fails meta" and srt: "kv_sorted (kv_data meta)"
    and wf: "\<forall>(k, d) \<in> set (kv_data meta).
               has_prefix (TABLET_DELVEC_PREFIX @ be64 t @ be32 s) k \<longrightarrow> length k = 24"
  defines "reached \<equiv> \<lambda>v :: 64 word. 0 < sint v \<or> range_end_included meta \<and> v = 0"
  shows "((\<forall>v d. kv_get meta (encode_del_vector_key t s v) = Some d \<and> reached v \<longrightarrow>
             sint version < sint v) \<longrightarrow>
          (\<exists>lv. get_del_vector pb meta t s version delvec latest_version =
                  Ret (NotFound, delvec, lv))) \<and>
         (kv_get meta (encode_del_vector_key t s v) = Some d \<and> reached v \<and>
          sint v \<le> sint version \<and>
          (\<forall>v' d'. kv_get meta (encode_del_vector_key t s v') = Some d' \<and> reached v' \<and>
             sint v' \<le> sint version \<longrightarrow> sint v' \<le> sint v) \<longrightarrow>
          (\<exists>lv. get_del_vector pb meta t s version delvec latest_version =
                  Ret (OK, snd (delvec_load pb v d), lv))) \<and>
         (kv_get meta (encode_del_vector_key t s vmax) = Some dmax \<and> reached vmax \<and>
          (\<forall>v' d'. kv_get meta (encode_del_vector_key t s v') = Some d' \<and> reached v' \<longrightarrow>
             sint v' \<le> sint vmax) \<longrightarrow>
          (\<exists>st dv. get_del_vector pb meta t s version delvec latest_version =
                     Ret (st, dv, vmax))) \<and>
         ((\<forall>v d. kv_get meta (encode_del_vector_key t s v) = Some d \<longrightarrow> \<not> reached v) \<longrightarrow>
          get_del_vector pb meta t s version delvec latest_version =
            Ret (NotFound, delvec, latest_version))"
proof -
  from get_del_vector_scan_result [OF rf srt wf, of pb version delvec latest_version]
  obtain vds where
    desc: "sorted_wrt (\<lambda>a b. sint (fst b) < sint (fst a)) vds"
    and recs: "set vds =
      {(v, d). kv_get meta (encode_del_vector_key t s v) = Some d \<and> reached v}"
    and g: "get_del_vector pb meta t s version delvec latest_version =
      Ret (case find (\<lambda>(v, d). sint v \<le> sint version) vds of
             None \<Rightarrow> (NotFound, delvec, if vds \<noteq> [] then fst (hd vds) else latest_version)
           | Some (v, d) \<Rightarrow> (OK, snd (delvec_load pb v d), fst (hd vds)))"
    unfolding reached_def by blast
  have mem: "((v, d) \<in> set vds) =
      (kv_get meta (encode_del_vector_key t s v) = Some d \<and> reached v)" for v d
    by (simp add: recs)
  have 1: "\<exists>lv. get_del_vector pb meta t s version delvec latest_version =
      Ret (NotFound, delvec, lv)"
    if a: "\<forall>v d. kv_get meta (encode_del_vector_key t s v) = Some d \<and> reached v \<longrightarrow>
             sint version < sint v"
  proof -
    have "find (\<lambda>(v, d). sint v \<le> sint version) vds = None"
      unfolding find_None_iff using a mem by fastforce
    then show ?thesis by (simp add: g)
  qed
  have 2: "\<exists>lv. get_del_vector pb meta t s version delvec latest_version =
      Ret (OK, snd (delvec_load pb v d), lv)"
    if a: "kv_get meta (encode_del_vector_key t s v) = Some d \<and> reached v \<and>
          sint v \<le> sint version \<and>
          (\<forall>v' d'. kv_get meta (encode_del_vector_key t s v') = Some d' \<and> reached v' \<and>
             sint v' \<le> sint version \<longrightarrow> sint v' \<le> sint v)"
  proof -
    from a have i: "(v, d) \<in> set vds" and le: "sint v \<le> sint version" by (simp_all add: mem)
    then have "find (\<lambda>(v, d). sint v \<le> sint version) vds \<noteq> None"
      unfolding find_None_iff by blast
    then obtain v0 d0 where f: "find (\<lambda>(v, d). sint v \<le> sint version) vds = Some (v0, d0)"
      by auto
    from find_descending [OF desc f]
    have i0: "(v0, d0) \<in> set vds" and le0: "sint v0 \<le> sint version"
      and mx: "\<forall>(v, d) \<in> set vds. sint v \<le> sint version \<longrightarrow> sint v \<le> sint v0"
      by blast+
    from mx i le have "sint v \<le> sint v0" by blast
    moreover from a i0 le0 have "sint v0 \<le> sint v" by (simp add: mem)
    ultimately have "sint v0 = sint v" by simp
    then have v0: "v0 = v" by (rule signed_word_eqI)
    with i i0 have "d0 = d" by (simp add: mem)
    with v0 f show ?thesis by (simp add: g)
  qed
  have 3: "\<exists>st dv. get_del_vector pb meta t s version delvec latest_version =
      Ret (st, dv, vmax)"
    if a: "kv_get meta (encode_del_vector_key t s vmax) = Some dmax \<and> reached vmax \<and>
          (\<forall>v' d'. kv_get meta (encode_del_vector_key t s v') = Some d' \<and> reached v' \<longrightarrow>
             sint v' \<le> sint vmax)"
  proof -
    from a have i: "(vmax, dmax) \<in> set vds" by (simp add: mem)
    then have ne: "vds \<noteq> []" by auto
    then have "hd vds \<in> set vds" by simp
    then have "(fst (hd vds), snd (hd vds)) \<in> set vds" by simp
    with a have "sint (fst (hd vds)) \<le> sint vmax" unfolding mem by blast
    moreover from hd_descending [OF desc i] have "sint vmax \<le> sint (fst (hd vds))" .
    ultimately have "sint (fst (hd vds)) = sint vmax" by simp
    then have "fst (hd vds) = vmax" by (rule signed_word_eqI)
    with ne show ?thesis by (simp add: g split: option.splits)
  qed
  have 4: "get_del_vector pb meta t s version delvec latest_version =
      Ret (NotFound, delvec, latest_version)"
    if a: "\<forall>v d. kv_get meta (encode_del_vector_key t s v) = Some d \<longrightarrow> \<not> reached v"
  proof -
    have "set vds = {}" unfolding recs using a by auto
    then show ?thesis by (simp add: g)
  qed
  from 1 2 3 4 show ?thesis by (intro conjI impI)
qed

text \<open>
  On the records of segment 2 of tablet 1 at the versions 3, 7 and 10, the query 8 loads
  the record of version 7 and reports 10, and the query 2 is \<open>NotFound\<close> and reports 10.
  With a single record at version 0 and the query version 5, the lookup depends on the
  range scan of the store: where the scan excludes its upper bound the record is not
  visited, the result is \<open>NotFound\<close> and \<open>latest_version\<close> keeps the value it had; where
  the scan includes its upper bound the record is loaded and 0 is reported.
\<close>

lemma get_del_vector_examples:
  "get_del_vector example_codec delvec_store 1 2 8 \<lparr>dv_version = 0, dv_data = []\<rparr> (- 1) =
     Ret (OK, \<lparr>dv_version = 7, dv_data = [7]\<rparr>, 10) \<and>
   get_del_vector example_codec delvec_store 1 2 2 \<lparr>dv_version = 0, dv_data = []\<rparr> (- 1) =
     Ret (NotFound, \<lparr>dv_version = 0, dv_data = []\<rparr>, 10) \<and>
   get_del_vector example_codec (store_of [(encode_del_vector_key 1 2 0, [7])]) 1 2 5
     \<lparr>dv_version = 0, dv_data = []\<rparr> (- 1) =
     Ret (NotFound, \<lparr>dv_version = 0, dv_data = []\<rparr>, - 1) \<and>
   get_del_vector example_codec
     (store_of [(encode_del_vector_key 1 2 0, [7])]\<lparr>range_end_included := True\<rparr>) 1 2 5
     \<lparr>dv_version = 0, dv_data = []\<rparr> (- 1) =
     Ret (OK, \<lparr>dv_version = 0, dv_data = [7]\<rparr>, 0)"
  by (simp add: get_del_vector_def iterate_range_def scan_range_def store_of_def kv_get_def
      delvec_store_def traverse_versions_def decode_del_vector_key_version_def load_be64_def
      example_codec_def example_key_simps)

end
